theory Spec2Isabelle
  imports Complex_Main
begin

section \<open>Bytes and number rendering\<close>

text \<open>
  Go strings and byte slices are sequences of bytes: they are modelled as \<open>string\<close>
  (a list of 8-bit \<open>char\<close>). Lengths, byte positions and object identifiers are Go
  \<open>int\<close> values that never become negative and never come near 2^63 in this program;
  they are modelled as \<open>nat\<close>.
\<close>

abbreviation NL :: char where "NL \<equiv> CHR 0x0A"
abbreviation SP :: char where "SP \<equiv> CHR 0x20"

definition digit :: "nat \<Rightarrow> char" where
  "digit n = ''0123456789ABCDEF'' ! n"

text \<open>The digits of \<open>n\<close> in base \<open>b\<close>, most significant first (\<open>%d\<close>, \<open>%o\<close>, \<open>%X\<close>).\<close>

fun radix :: "nat \<Rightarrow> nat \<Rightarrow> string" where
  "radix b n = (if n < b \<or> b < 2 then [digit n] else radix b (n div b) @ [digit (n mod b)])"

declare radix.simps [simp del]

definition decimal :: "nat \<Rightarrow> string" where
  "decimal n = radix 10 n"

text \<open>Zero padding to a minimum width, as the \<open>0\<close> flag of \<open>fmt\<close> does (\<open>%010d\<close>, \<open>%05d\<close>, \<open>%03o\<close>, \<open>%04X\<close>).\<close>

definition padZero :: "nat \<Rightarrow> string \<Rightarrow> string" where
  "padZero w s = replicate (w - length s) (CHR ''0'') @ s"

text \<open>\<open>pdfNewLine\<close>: a newline unless the chunk already ends in one.\<close>

definition pdfNewLine :: "string \<Rightarrow> string" where
  "pdfNewLine prev = (if length prev > 0 \<and> prev ! (length prev - 1) = NL then [] else [NL])"

section \<open>The output sink and the buffered writer\<close>

text \<open>
  The sink is the \<open>io.Writer\<close> the caller passes to \<open>WriteTo\<close>. Its behaviour is not
  under the program's control, so it is modelled by a script: each call of its \<open>Write\<close>
  consumes the next response of the script, and a sink whose script is exhausted accepts
  everything. A response either accepts the whole slice or accepts only a prefix of it
  and returns an error (an \<open>io.Writer\<close> must return an error when it accepts fewer bytes
  than it was given). \<open>received\<close> collects the bytes the sink has accepted, and
  \<open>calls\<close> records, per call, the error the sink returned.
\<close>

datatype ioerr = SinkError nat | ErrShortWrite

datatype response = Accept | Reject nat ioerr

record sink =
  received :: string
  script :: "response list"
  calls :: "ioerr option list"

definition sinkWrite :: "sink \<Rightarrow> string \<Rightarrow> nat \<times> ioerr option \<times> sink" where
  "sinkWrite s p =
     (case script s of
        [] \<Rightarrow> (length p, None, s\<lparr>received := received s @ p, calls := calls s @ [None]\<rparr>)
      | Accept # rs \<Rightarrow>
          (length p, None,
           s\<lparr>received := received s @ p, script := rs, calls := calls s @ [None]\<rparr>)
      | Reject k e # rs \<Rightarrow>
          (min k (length p), Some e,
           s\<lparr>received := received s @ take k p, script := rs, calls := calls s @ [Some e]\<rparr>))"

text \<open>
  \<open>bufio.Writer\<close> of the Go standard library, with its default buffer of 4096 bytes:
  \<open>buf\<close> is the buffered data \<open>b.buf[0:b.n]\<close>, \<open>werr\<close> the sticky error \<open>b.err\<close>,
  \<open>wr\<close> the underlying sink. Once \<open>werr\<close> is set, \<open>Write\<close> and \<open>Flush\<close> accept no more
  data and return that error.
\<close>

record bufwriter =
  buf :: string
  werr :: "ioerr option"
  wr :: sink

definition bufSize :: nat where
  "bufSize = 4096"

definition available :: "bufwriter \<Rightarrow> nat" where
  "available w = bufSize - length (buf w)"

definition newWriter :: "sink \<Rightarrow> bufwriter" where
  "newWriter s = \<lparr>buf = [], werr = None, wr = s\<rparr>"

definition bufFlush :: "bufwriter \<Rightarrow> ioerr option \<times> bufwriter" where
  "bufFlush w =
     (case werr w of
        Some e \<Rightarrow> (Some e, w)
      | None \<Rightarrow>
          if buf w = [] then (None, w)
          else
            (case sinkWrite (wr w) (buf w) of
               (n, err, s') \<Rightarrow>
                 (case (if n < length (buf w) \<and> err = None then Some ErrShortWrite else err) of
                    Some e \<Rightarrow> (Some e, w\<lparr>buf := drop n (buf w), werr := Some e, wr := s'\<rparr>)
                  | None \<Rightarrow> (None, w\<lparr>buf := [], wr := s'\<rparr>))))"

lemma sinkWrite_count:
  "sinkWrite s p = (n, err, s') \<Longrightarrow> n \<le> length p \<and> (err = None \<longrightarrow> n = length p)"
  by (auto simp: sinkWrite_def split: list.splits response.splits)

lemma bufFlush_cases:
  "bufFlush w = (err, w') \<Longrightarrow> werr w = None \<Longrightarrow> buf w \<noteq> [] \<Longrightarrow>
     (err = None \<and> werr w' = None \<and> buf w' = []) \<or> (err \<noteq> None \<and> werr w' = err)"
  by (auto simp: bufFlush_def split: prod.splits option.splits if_splits)

text \<open>
  The loop of \<open>bufio.Writer.Write\<close>: while the slice does not fit into the free part of
  the buffer and no error is pending, either write a large slice directly to the sink
  (empty buffer) or fill the buffer up and flush it. It returns the writer, the rest of
  the slice and the number of bytes taken so far.
\<close>

function bufWriteLoop :: "bufwriter \<Rightarrow> string \<Rightarrow> nat \<Rightarrow> bufwriter \<times> string \<times> nat" where
  "bufWriteLoop w p nn =
     (if length p > available w \<and> werr w = None then
        (if buf w = [] then
           (case sinkWrite (wr w) p of
              (n, err, s') \<Rightarrow> bufWriteLoop (w\<lparr>werr := err, wr := s'\<rparr>) (drop n p) (nn + n))
         else
           (let n = min (available w) (length p) in
              bufWriteLoop (snd (bufFlush (w\<lparr>buf := buf w @ take n p\<rparr>))) (drop n p) (nn + n)))
      else (w, p, nn))"
  by pat_completeness auto
termination
proof (relation "measure (\<lambda>(w, p, nn).
          if werr w \<noteq> None then 0 else 2 * length p + (if buf w = [] then 1 else 2))",
       goal_cases)
  case 1
  show ?case by simp
next
  case (2 w p nn n y err s')
  then have "sinkWrite (wr w) p = (n, err, s')"
    by simp
  from sinkWrite_count [OF this] 2 show ?case
    by (cases err) auto
next
  case (3 w p nn n)
  obtain e w' where fl: "bufFlush (w\<lparr>buf := buf w @ take n p\<rparr>) = (e, w')"
    by (cases "bufFlush (w\<lparr>buf := buf w @ take n p\<rparr>)") auto
  from 3 have "werr (w\<lparr>buf := buf w @ take n p\<rparr>) = None" "buf (w\<lparr>buf := buf w @ take n p\<rparr>) \<noteq> []"
    by auto
  from bufFlush_cases [OF fl this] 3 fl show ?case
    by auto
qed

declare bufWriteLoop.simps [simp del]

definition bufWrite :: "bufwriter \<Rightarrow> string \<Rightarrow> nat \<times> ioerr option \<times> bufwriter" where
  "bufWrite w p =
     (case bufWriteLoop w p 0 of
        (w1, p1, nn) \<Rightarrow>
          (case werr w1 of
             Some e \<Rightarrow> (nn, Some e, w1)
           | None \<Rightarrow>
               (let n = min (available w1) (length p1) in
                  (nn + n, None, w1\<lparr>buf := buf w1 @ take n p1\<rparr>))))"

section \<open>Dates\<close>

text \<open>
  A \<open>time.Time\<close> is modelled by what \<open>Format\<close> reads from it and \<open>Parse\<close> builds: the
  civil date and time of day in the value's own location, nanoseconds, and the offset of
  that location from UTC in seconds (east positive).
\<close>

record gotime =
  year :: int
  month :: nat
  day :: nat
  hour :: nat
  minute :: nat
  second :: nat
  nsec :: nat
  zoneOffset :: int

definition isLeap :: "int \<Rightarrow> bool" where
  "isLeap y = (y mod 4 = 0 \<and> (y mod 100 \<noteq> 0 \<or> y mod 400 = 0))"

definition daysIn :: "nat \<Rightarrow> int \<Rightarrow> nat" where
  "daysIn m y = (if m = 2 then (if isLeap y then 29 else 28)
                 else [31, 28, 31, 30, 31, 30, 31, 31, 30, 31, 30, 31] ! (m - 1))"

text \<open>The civil readings a \<open>time.Time\<close> can have.\<close>

definition validTime :: "gotime \<Rightarrow> bool" where
  "validTime t = (1 \<le> month t \<and> month t \<le> 12 \<and> 1 \<le> day t \<and> day t \<le> daysIn (month t) (year t)
                  \<and> hour t < 24 \<and> minute t < 60 \<and> second t < 60 \<and> nsec t < 1000000000)"

text \<open>
  The instant of a time value in seconds (counted from 0000-01-01 00:00:00 UTC of the
  proleptic Gregorian calendar); two time values are equal at one-second granularity
  when their instants are.
\<close>

definition daysBeforeYear :: "int \<Rightarrow> int" where
  "daysBeforeYear y = 365 * y + (y + 3) div 4 - (y + 99) div 100 + (y + 399) div 400"

definition daysBeforeMonth :: "int \<Rightarrow> nat \<Rightarrow> nat" where
  "daysBeforeMonth y m = sum_list (map (\<lambda>k. daysIn k y) [1..<m])"

definition instant :: "gotime \<Rightarrow> int" where
  "instant t = (daysBeforeYear (year t) + int (daysBeforeMonth (year t) (month t)) + int (day t) - 1) * 86400
               + int (hour t) * 3600 + int (minute t) * 60 + int (second t) - zoneOffset t"

definition sameSecond :: "gotime \<Rightarrow> gotime \<Rightarrow> bool" where
  "sameSecond t u = (instant t = instant u)"

text \<open>
  \<open>appendInt\<close> of package \<open>time\<close>: a sign for a negative number, then the decimal digits
  padded with zeros to the width; a number with more digits than the width keeps them all.
\<close>

definition appendInt :: "int \<Rightarrow> nat \<Rightarrow> string" where
  "appendInt x w = (if x < 0 then ''-'' else []) @ padZero w (decimal (nat \<bar>x\<bar>))"

text \<open>
  The zone of the layout element \<open>Z07:00\<close>: \<open>Z\<close> for offset 0, otherwise the sign, hours,
  a colon and minutes of the offset; Go's division truncates towards zero, and the seconds
  of the offset are not printed.
\<close>

definition formatZone :: "int \<Rightarrow> string" where
  "formatZone off =
     (if off = 0 then ''Z''
      else
        (let zone = (if off < 0 then - ((- off) div 60) else off div 60) in
           (if zone < 0 then ''-'' else ''+'') @ appendInt (\<bar>zone\<bar> div 60) 2 @ '':''
           @ appendInt (\<bar>zone\<bar> mod 60) 2))"

text \<open>\<open>t.Format("::20060102150405Z07:00")\<close>.\<close>

definition timeFormat :: "gotime \<Rightarrow> string" where
  "timeFormat t =
     ''::'' @ appendInt (year t) 4 @ appendInt (int (month t)) 2 @ appendInt (int (day t)) 2
     @ appendInt (int (hour t)) 2 @ appendInt (int (minute t)) 2 @ appendInt (int (second t)) 2
     @ formatZone (zoneOffset t)"

text \<open>A call that may panic either panics or returns.\<close>

datatype 'a run = Panics | Returns 'a

abbreviation QUOTE :: char where "QUOTE \<equiv> CHR 0x27"

text \<open>
  \<open>pdfFormatDate\<close>: \<open>b[0] = 'D'\<close>; for a result longer than 17 bytes \<open>b[19]\<close> becomes a
  quote and a quote is appended. The store to \<open>b[19]\<close> panics when the slice has 18 or 19
  bytes.
\<close>

definition pdfFormatDate :: "gotime \<Rightarrow> string run" where
  "pdfFormatDate t =
     (let b = (timeFormat t)[0 := CHR ''D''] in
        if length b > 17 then
          (if 19 < length b then Returns (b[19 := QUOTE] @ [QUOTE]) else Panics)
        else Returns b)"

text \<open>
  \<open>time.Parse("20060102150405Z07:00", s)\<close>, element by element as package \<open>time\<close> reads it:
  a year of four digits, month, day, minute and second of exactly two digits, an hour of
  one or two digits, an optional fractional second after a period or comma, then \<open>Z\<close> or
  sign, two digits, colon, two digits; nothing may follow. \<open>None\<close> is a parse error.
\<close>

definition isDigit :: "string \<Rightarrow> nat \<Rightarrow> bool" where
  "isDigit s i = (i < length s \<and> 48 \<le> (of_char (s ! i) :: nat) \<and> (of_char (s ! i) :: nat) \<le> 57)"

definition digitVal :: "char \<Rightarrow> nat" where
  "digitVal c = of_char c - 48"

definition getnum :: "string \<Rightarrow> bool \<Rightarrow> (nat \<times> string) option" where
  "getnum s fixed =
     (if \<not> isDigit s 0 then None
      else if \<not> isDigit s 1 then (if fixed then None else Some (digitVal (s ! 0), drop 1 s))
      else Some (digitVal (s ! 0) * 10 + digitVal (s ! 1), drop 2 s))"

definition parseYear :: "string \<Rightarrow> (nat \<times> string) option" where
  "parseYear s =
     (if length s < 4 \<or> \<not> (isDigit s 0 \<and> isDigit s 1 \<and> isDigit s 2 \<and> isDigit s 3) then None
      else Some (digitVal (s ! 0) * 1000 + digitVal (s ! 1) * 100 + digitVal (s ! 2) * 10
                 + digitVal (s ! 3), drop 4 s))"

text \<open>
  The fractional second in the input that the layout does not have: the digits after the
  separator, at most nine of them counted, scaled to nanoseconds.
\<close>

definition parseFraction :: "string \<Rightarrow> nat \<times> string" where
  "parseFraction s =
     (if length s \<ge> 2 \<and> (s ! 0 = CHR ''.'' \<or> s ! 0 = CHR '','') \<and> isDigit s 1 then
        (let ds = takeWhile (\<lambda>c. isDigit [c] 0) (drop 1 s);
             used = take 9 ds
         in (foldl (\<lambda>a c. a * 10 + digitVal c) 0 used * 10 ^ (9 - length used),
             drop (1 + length ds) s))
      else (0, s))"

definition parseZone :: "string \<Rightarrow> (int \<times> string) option" where
  "parseZone s =
     (if length s \<ge> 1 \<and> s ! 0 = CHR ''Z'' then Some (0, drop 1 s)
      else if length s < 6 then None
      else if s ! 3 \<noteq> CHR '':'' then None
      else
        (case (getnum (take 2 (drop 1 s)) True, getnum (take 2 (drop 4 s)) True) of
           (Some (hr, _), Some (mm, _)) \<Rightarrow>
             if hr > 24 \<or> mm > 60 then None
             else if s ! 0 = CHR ''+'' then Some (int ((hr * 60 + mm) * 60), drop 6 s)
             else if s ! 0 = CHR ''-'' then Some (- int ((hr * 60 + mm) * 60), drop 6 s)
             else None
         | _ \<Rightarrow> None))"

definition timeParse :: "string \<Rightarrow> gotime option" where
  "timeParse s =
     (case parseYear s of None \<Rightarrow> None | Some (y, s1) \<Rightarrow>
      (case getnum s1 True of None \<Rightarrow> None | Some (mo, s2) \<Rightarrow>
       if mo \<le> 0 \<or> 12 < mo then None else
      (case getnum s2 True of None \<Rightarrow> None | Some (d, s3) \<Rightarrow>
      (case getnum s3 False of None \<Rightarrow> None | Some (h, s4) \<Rightarrow>
       if 24 \<le> h then None else
      (case getnum s4 True of None \<Rightarrow> None | Some (mi, s5) \<Rightarrow>
       if 60 \<le> mi then None else
      (case getnum s5 True of None \<Rightarrow> None | Some (sec, s6) \<Rightarrow>
       if 60 \<le> sec then None else
      (case parseFraction s6 of (ns, s7) \<Rightarrow>
      (case parseZone s7 of None \<Rightarrow> None | Some (off, s8) \<Rightarrow>
       if s8 \<noteq> [] then None
       else if d < 1 \<or> d > daysIn mo (int y) then None
       else Some \<lparr>year = int y, month = mo, day = d, hour = h, minute = mi, second = sec,
                  nsec = ns, zoneOffset = off\<rparr>))))))))"

text \<open>
  \<open>pdfParseDate\<close>; \<open>None\<close> is the error of the format. For an input shorter than two
  bytes the slice \<open>b[0:2]\<close> stays within the capacity of the byte slice that the
  conversion of the string has made and reads zero bytes after the input, so it is not
  \<open>D:\<close>, and the length is none of those that the switch accepts.
\<close>

definition pdfParseDate :: "string \<Rightarrow> gotime option" where
  "pdfParseDate s =
     (let b = (if take 2 s = ''D:'' then drop 2 s else s);
          l = length b
      in if l = 15 then timeParse b
         else if l \<in> {4, 6, 8, 10, 12, 14, 18, 21} then
           (let b1 = b @ drop l (''00000101000000+00'' @ [QUOTE] @ ''00'' @ [QUOTE]) in
              if b1 ! 17 \<noteq> QUOTE \<or> b1 ! 20 \<noteq> QUOTE then None
              else timeParse ((take 20 b1)[17 := CHR '':'']))
         else None)"

section \<open>String escaping\<close>

text \<open>
  \<open>pdfStr\<close> ranges over the runes of a Go string (its UTF-8 decoding, an invalid byte
  read as U+FFFD) and, for the hexadecimal form, encodes them in UTF-16. Runes and UTF-16
  units are modelled as \<open>nat\<close>.
\<close>

definition isCont :: "string \<Rightarrow> nat \<Rightarrow> nat \<Rightarrow> nat \<Rightarrow> bool" where
  "isCont s i lo hi = (i < length s \<and> lo \<le> (of_char (s ! i) :: nat) \<and> (of_char (s ! i) :: nat) \<le> hi)"

definition contBits :: "string \<Rightarrow> nat \<Rightarrow> nat" where
  "contBits s i = (of_char (s ! i) :: nat) mod 64"

text \<open>The first rune of a non-empty string and the number of bytes it takes.\<close>

definition decodeRune :: "string \<Rightarrow> nat \<times> nat" where
  "decodeRune s =
     (let b0 = (of_char (s ! 0) :: nat) in
        if b0 < 0x80 then (b0, 1)
        else if 0xC2 \<le> b0 \<and> b0 \<le> 0xDF \<and> isCont s 1 0x80 0xBF then
          ((b0 mod 32) * 64 + contBits s 1, 2)
        else if 0xE0 \<le> b0 \<and> b0 \<le> 0xEF
                \<and> isCont s 1 (if b0 = 0xE0 then 0xA0 else 0x80) (if b0 = 0xED then 0x9F else 0xBF)
                \<and> isCont s 2 0x80 0xBF then
          ((b0 mod 16) * 4096 + contBits s 1 * 64 + contBits s 2, 3)
        else if 0xF0 \<le> b0 \<and> b0 \<le> 0xF4
                \<and> isCont s 1 (if b0 = 0xF0 then 0x90 else 0x80) (if b0 = 0xF4 then 0x8F else 0xBF)
                \<and> isCont s 2 0x80 0xBF \<and> isCont s 3 0x80 0xBF then
          ((b0 mod 8) * 262144 + contBits s 1 * 4096 + contBits s 2 * 64 + contBits s 3, 4)
        else (0xFFFD, 1))"

lemma decodeRune_size: "0 < snd (decodeRune s)"
  by (simp add: decodeRune_def Let_def)

function runes :: "string \<Rightarrow> nat list" where
  "runes s = (if s = [] then [] else fst (decodeRune s) # runes (drop (snd (decodeRune s)) s))"
  by pat_completeness auto
termination
  by (relation "measure length") (use decodeRune_size in \<open>auto simp: neq_Nil_conv\<close>)

declare runes.simps [simp del]

text \<open>\<open>utf16.Encode\<close>.\<close>

definition encodeRune16 :: "nat \<Rightarrow> nat list" where
  "encodeRune16 v =
     (if v < 0xD800 \<or> (0xE000 \<le> v \<and> v < 0x10000) then [v]
      else if 0x10000 \<le> v \<and> v \<le> 0x10FFFF then
        [0xD800 + (v - 0x10000) div 1024, 0xDC00 + (v - 0x10000) mod 1024]
      else [0xFFFD])"

definition utf16Encode :: "nat list \<Rightarrow> nat list" where
  "utf16Encode rs = concat (map encodeRune16 rs)"

abbreviation BSL :: char where "BSL \<equiv> CHR 0x5C"

text \<open>
  The loop of \<open>pdfStr\<close> over the runes: it returns the buffer and the flag \<open>ok\<close>, which
  the first rune above 127 clears, ending the loop.
\<close>

fun pdfStrLoop :: "nat list \<Rightarrow> string \<Rightarrow> string \<times> bool" where
  "pdfStrLoop [] b = (b, True)"
| "pdfStrLoop (u # us) b =
     (if u = 10 then pdfStrLoop us (b @ [BSL, CHR ''n''])
      else if u = 13 then pdfStrLoop us (b @ [BSL, CHR ''r''])
      else if u = 9 then pdfStrLoop us (b @ [BSL, CHR ''t''])
      else if u = 8 then pdfStrLoop us (b @ [BSL, CHR ''b''])
      else if u = 12 then pdfStrLoop us (b @ [BSL, CHR ''f''])
      else if u = 40 \<or> u = 41 then pdfStrLoop us (b @ [BSL, char_of u])
      else if u < 32 \<or> u = 127 then pdfStrLoop us (b @ BSL # padZero 3 (radix 8 u))
      else if u > 127 then (b, False)
      else pdfStrLoop us (b @ [char_of u]))"

definition pdfStr :: "string \<Rightarrow> string" where
  "pdfStr str =
     (case pdfStrLoop (runes str) ''('' of
        (b, True) \<Rightarrow> b @ '')''
      | (b, False) \<Rightarrow>
          ''<FEFF'' @ concat (map (\<lambda>u. padZero 4 (radix 16 u)) (utf16Encode (runes str))) @ ''>'')"

section \<open>The low-level PDF writer\<close>

datatype error = ErrFrozen | ErrPageSize | ErrScale | ErrMuffler | ErrIO ioerr

text \<open>
  What a method with result \<open>err error\<close> does: it returns \<open>nil\<close>, returns an error, or
  panics (\<open>pdfSure\<close>, an index out of range).
\<close>

datatype status = Success | Failure error | Panicked

definition ioStatus :: "ioerr option \<Rightarrow> status" where
  "ioStatus err = (case err of None \<Rightarrow> Success | Some e \<Rightarrow> Failure (ErrIO e))"

definition pdfUseDeflate :: bool where
  "pdfUseDeflate = True"

definition packageName :: string where
  "packageName = ''scpdf''"

definition scpdfVersion :: string where
  "scpdfVersion = ''0.18.0''"

definition dfltPdfVersion :: string where
  "dfltPdfVersion = ''1.4''"

definition pdfUseNow :: string where
  "pdfUseNow = ''<now?'' @ [CHR 0x08] @ ''>''"

text \<open>
  \<open>pdfId.String\<close>, as \<open>fmt\<close> prints an identifier with \<open>%v\<close>: \<open>fmt\<close> recovers the panic
  of a \<open>String\<close> method and prints a description of it in place of the value.
\<close>

definition idString :: "nat \<Rightarrow> string" where
  "idString i = (if 0 < i \<and> i < 65536 then decimal i @ '' 0 R''
                 else ''%!v(PANIC=String method: scpdf: INTERNAL ERROR)'')"

record pdfDoc =
  writer :: bufwriter
  pos :: nat
  xref :: "nat list"
  pages :: "nat list"
  pagesId :: nat
  version :: string
  title :: string
  author :: string
  subject :: string
  producer :: string
  creator :: string
  creationDate :: string

fun write_pdf :: "pdfDoc \<Rightarrow> string list \<Rightarrow> ioerr option \<times> pdfDoc" where
  "write_pdf d [] = (None, d)"
| "write_pdf d (c # cs) =
     (case bufWrite (writer d) c of
        (n, err, w) \<Rightarrow>
          (case err of
             Some e \<Rightarrow> (Some e, d\<lparr>writer := w, pos := pos d + n\<rparr>)
           | None \<Rightarrow> write_pdf (d\<lparr>writer := w, pos := pos d + n\<rparr>) cs))"

definition newId :: "pdfDoc \<Rightarrow> nat \<times> pdfDoc" where
  "newId d = (length (xref d), d\<lparr>xref := xref d @ [0]\<rparr>)"

definition infoGet :: "(string \<rightharpoonup> string) \<Rightarrow> string \<Rightarrow> string \<Rightarrow> string" where
  "infoGet info key dflt = (case info key of Some v \<Rightarrow> v | None \<Rightarrow> dflt)"

definition pdfHeader :: "string \<Rightarrow> string list" where
  "pdfHeader v = [''%PDF-'' @ v @ [NL], [CHR ''%'', CHR 0xC5, CHR 0xDD, CHR 0xC4, CHR 0xB6, NL]]"

definition newPdfDoc :: "sink \<Rightarrow> (string \<rightharpoonup> string) \<Rightarrow> ioerr option \<times> pdfDoc" where
  "newPdfDoc s info =
     (let d = \<lparr>writer = newWriter s, pos = 0, xref = [0], pages = [], pagesId = 0,
               version = infoGet info ''version'' dfltPdfVersion,
               title = infoGet info ''title'' [],
               author = infoGet info ''author'' [],
               subject = infoGet info ''subject'' [],
               producer = infoGet info ''producer'' (packageName @ ''-'' @ scpdfVersion),
               creator = infoGet info ''creator'' packageName,
               creationDate = infoGet info ''creationDate'' pdfUseNow\<rparr>
      in case newId d of
           (i, d1) \<Rightarrow> write_pdf (d1\<lparr>pagesId := i\<rparr>) (pdfHeader (version d1)))"

definition objHeader :: "nat \<Rightarrow> string" where
  "objHeader i = decimal i @ '' 0 obj'' @ [NL]"

definition startObject :: "pdfDoc \<Rightarrow> nat \<Rightarrow> status \<times> pdfDoc" where
  "startObject d i =
     (if i > 0 \<and> i < length (xref d) \<and> xref d ! i = 0 then
        (case write_pdf (d\<lparr>xref := (xref d)[i := pos d]\<rparr>) [objHeader i] of
           (err, d1) \<Rightarrow> (ioStatus err, d1))
      else (Panicked, d))"

definition addObject :: "pdfDoc \<Rightarrow> nat \<Rightarrow> string \<Rightarrow> status \<times> pdfDoc" where
  "addObject d i v =
     (case startObject d i of
        (Success, d1) \<Rightarrow>
          (case write_pdf d1 [v, pdfNewLine v, ''endobj'' @ [NL]] of
             (err, d2) \<Rightarrow> (ioStatus err, d2))
      | r \<Rightarrow> r)"

text \<open>
  The stream that \<open>addStream\<close> writes for the given data: the bytes and the filter entry
  of the dictionary. \<open>zlib\<close> is the compression of \<open>compress/zlib\<close> at its default level,
  a parameter of the model.
\<close>

definition streamData :: "(string \<Rightarrow> string) \<Rightarrow> string \<Rightarrow> string \<times> string" where
  "streamData zlib dat =
     (if pdfUseDeflate \<and> int (length (zlib dat)) \<le> int (length dat) - 32
      then (zlib dat, ''/Filter/FlateDecode'')
      else (dat, []))"

definition streamChunks :: "string \<times> string \<Rightarrow> string list" where
  "streamChunks df =
     [''<</Length '' @ decimal (length (fst df)) @ snd df @ ''>>'' @ [NL] @ ''stream'' @ [NL],
      fst df, pdfNewLine (fst df), ''endstream'' @ [NL] @ ''endobj'' @ [NL]]"

definition addStream :: "(string \<Rightarrow> string) \<Rightarrow> pdfDoc \<Rightarrow> nat \<Rightarrow> string \<Rightarrow> status \<times> pdfDoc" where
  "addStream zlib d i dat =
     (case startObject d i of
        (Success, d1) \<Rightarrow>
          (case write_pdf d1 (streamChunks (streamData zlib dat)) of
             (err, d2) \<Rightarrow> (ioStatus err, d2))
      | r \<Rightarrow> r)"

definition pageChunks :: "nat \<Rightarrow> nat \<Rightarrow> nat \<Rightarrow> string \<Rightarrow> string list" where
  "pageChunks contents resources parent chunk =
     [''<</Type/Page/Contents '' @ idString contents @ ''/Resources '' @ idString resources
        @ ''/Parent '' @ idString parent @ [NL],
      chunk, ''>>'' @ [NL] @ ''endobj'' @ [NL]]"

definition addPage :: "pdfDoc \<Rightarrow> nat \<Rightarrow> nat \<Rightarrow> nat \<Rightarrow> string \<Rightarrow> status \<times> pdfDoc" where
  "addPage d i contents resources chunk =
     (case startObject d i of
        (Success, d1) \<Rightarrow>
          (let d2 = d1\<lparr>pages := pages d1 @ [i]\<rparr> in
             case write_pdf d2 (pageChunks contents resources (pagesId d2) chunk) of
               (err, d3) \<Rightarrow> (ioStatus err, d3))
      | r \<Rightarrow> r)"

subsection \<open>Finishing the document\<close>

definition infoChunk :: "string \<Rightarrow> string \<Rightarrow> string" where
  "infoChunk key v = (if v = [] then [] else ''/'' @ key @ pdfStr v @ [NL])"

text \<open>
  The loop that fills the buffer \<open>kids\<close>: \<open>b\<close> is the buffer and \<open>plt\<close> its length after
  the last line break.
\<close>

fun kidsLoop :: "nat list \<Rightarrow> string \<Rightarrow> nat \<Rightarrow> string" where
  "kidsLoop [] b plt = b"
| "kidsLoop (i # is) b plt =
     (let b1 = b @ idString i in
        if length b1 > plt + 70 then kidsLoop is (b1 @ [NL]) (length (b1 @ [NL]))
        else kidsLoop is (b1 @ [SP]) plt)"

definition kidsArray :: "nat list \<Rightarrow> string" where
  "kidsArray ps = (let b = kidsLoop ps ''['' 0 in take (length b - 1) b @ '']'')"

definition pagesChunks :: "nat list \<Rightarrow> string list" where
  "pagesChunks ps =
     [''<</Type/Pages/Count '' @ decimal (length ps) @ ''/Kids'' @ [NL],
      kidsArray ps, ''>>'' @ [NL] @ ''endobj'' @ [NL]]"

definition infoChunks :: "pdfDoc \<Rightarrow> string list" where
  "infoChunks d =
     [''<<'',
      infoChunk ''Title'' (title d),
      infoChunk ''Author'' (author d),
      infoChunk ''Subject'' (subject d),
      infoChunk ''Producer'' (producer d),
      infoChunk ''Creator'' (creator d),
      infoChunk ''CreationDate'' (creationDate d),
      infoChunk ''ModDate'' (creationDate d),
      ''/Trapped/False>>'' @ [NL] @ ''endobj'' @ [NL]]"

definition xrefHead :: "nat \<Rightarrow> string list" where
  "xrefHead lmt =
     [''xref'' @ [NL] @ ''0 '' @ decimal lmt @ [NL],
      padZero 10 (decimal 0) @ '' '' @ padZero 5 (decimal 65535) @ '' f '' @ [NL]]"

definition xrefEntry :: "nat \<Rightarrow> string" where
  "xrefEntry off = padZero 10 (decimal off) @ '' '' @ padZero 5 (decimal 0) @ '' n '' @ [NL]"

text \<open>
  The loop over the entries 1 to \<open>lmt - 1\<close>. The error of a write is assigned to \<open>err\<close>
  and not looked at inside the loop.
\<close>

fun xrefLoop :: "pdfDoc \<Rightarrow> nat list \<Rightarrow> status \<Rightarrow> status \<times> pdfDoc" where
  "xrefLoop d [] err = (err, d)"
| "xrefLoop d (i # is) err =
     (if xref d ! i > 0 then
        (case write_pdf d [xrefEntry (xref d ! i)] of
           (e, d1) \<Rightarrow> xrefLoop d1 is (ioStatus e))
      else (Panicked, d))"

text \<open>\<open>%X\<close> of the digest: two upper-case hexadecimal digits per byte.\<close>

definition hexBytes :: "string \<Rightarrow> string" where
  "hexBytes bs = concat (map (\<lambda>c. padZero 2 (radix 16 (of_char c))) bs)"

text \<open>The trailer; \<open>md5\<close> is \<open>md5.Sum\<close>, a parameter of the model.\<close>

definition trailerId :: "(string \<Rightarrow> string) \<Rightarrow> string \<Rightarrow> string \<Rightarrow> nat \<Rightarrow> string" where
  "trailerId md5 cd ti xrefPos = hexBytes (md5 (cd @ ''/'' @ ti @ ''/'' @ decimal xrefPos))"

definition trailerChunks ::
  "(string \<Rightarrow> string) \<Rightarrow> pdfDoc \<Rightarrow> nat \<Rightarrow> nat \<Rightarrow> nat \<Rightarrow> nat \<Rightarrow> string list" where
  "trailerChunks md5 d lmt catalogId docInfoId xrefPos =
     (let h = trailerId md5 (creationDate d) (title d) xrefPos in
        [''trailer'' @ [NL],
         ''<</Size '' @ decimal lmt @ ''/Root '' @ idString catalogId @ ''/Info ''
           @ idString docInfoId @ [NL],
         ''/ID[<'' @ h @ ''><'' @ h @ ''>]>>'' @ [NL],
         ''startxref'' @ [NL],
         decimal xrefPos @ [NL],
         ''%%EOF'' @ [NL]])"

text \<open>The second half of \<open>finish\<close>: cross-reference table, trailer, flush.\<close>

definition finishXref ::
  "(string \<Rightarrow> string) \<Rightarrow> pdfDoc \<Rightarrow> nat \<Rightarrow> nat \<Rightarrow> status \<times> pdfDoc" where
  "finishXref md5 d catalogId docInfoId =
     (let xrefPos = pos d; lmt = length (xref d) in
        case write_pdf d (xrefHead lmt) of
          (Some e, d1) \<Rightarrow> (Failure (ErrIO e), d1)
        | (None, d1) \<Rightarrow>
            (case xrefLoop d1 [1..<lmt] Success of
               (Panicked, d2) \<Rightarrow> (Panicked, d2)
             | (_, d2) \<Rightarrow>
                 (case write_pdf d2 (trailerChunks md5 d2 lmt catalogId docInfoId xrefPos) of
                    (Some e, d3) \<Rightarrow> (Failure (ErrIO e), d3)
                  | (None, d3) \<Rightarrow>
                      (case bufFlush (writer d3) of
                         (e, w) \<Rightarrow> (ioStatus e, d3\<lparr>writer := w\<rparr>)))))"

text \<open>
  \<open>finish\<close>: page tree, catalog, document information, then \<open>finishXref\<close>. \<open>now\<close> is
  the value of \<open>time.Now()\<close>.
\<close>

definition finish :: "(string \<Rightarrow> string) \<Rightarrow> gotime \<Rightarrow> pdfDoc \<Rightarrow> status \<times> pdfDoc" where
  "finish md5 now d =
     (case startObject d (pagesId d) of
        (Success, d1) \<Rightarrow>
          (case write_pdf d1 (pagesChunks (pages d1)) of
             (Some e, d2) \<Rightarrow> (Failure (ErrIO e), d2)
           | (None, d2) \<Rightarrow>
               (case newId d2 of
                  (catalogId, d3) \<Rightarrow>
                    (case addObject d3 catalogId
                            (''<</Type/Catalog/Pages '' @ idString (pagesId d3) @ ''>>'') of
                       (Success, d4) \<Rightarrow>
                         (case (if creationDate d4 = pdfUseNow then pdfFormatDate now
                                else Returns (creationDate d4)) of
                            Panics \<Rightarrow> (Panicked, d4)
                          | Returns cd \<Rightarrow>
                              (case newId (d4\<lparr>creationDate := cd\<rparr>) of
                                 (docInfoId, d5) \<Rightarrow>
                                   (case startObject d5 docInfoId of
                                      (Success, d6) \<Rightarrow>
                                        (case write_pdf d6 (infoChunks d6) of
                                           (Some e, d7) \<Rightarrow> (Failure (ErrIO e), d7)
                                         | (None, d7) \<Rightarrow> finishXref md5 d7 catalogId docInfoId)
                                    | r \<Rightarrow> r)))
                     | r \<Rightarrow> r)))
      | r \<Rightarrow> r)"

section \<open>Colours, numbers and the artwork\<close>

text \<open>
  A \<open>float64\<close> value of the program (page size, scale, colour component, coordinate of
  the artwork) is modelled by the rational number it denotes. \<open>fl\<close> rounds a rational to
  the nearest \<open>float64\<close>, a multiple of a power of two with a mantissa of 53 bits, ties to
  the even mantissa; an operation of the program on \<open>float64\<close> values, and the conversion
  of a constant, is the exact operation followed by \<open>fl\<close> (each operation rounded by
  itself, none fused). \<open>%.3f\<close> and \<open>%.4f\<close> are the correctly rounded decimal rendering
  of the exact value. The model does not cover NaN, infinities, the sign of zero and the
  limits of the exponent (overflow and subnormal numbers).
\<close>

definition roundHalfEven :: "rat \<Rightarrow> int" where
  "roundHalfEven q =
     (let f = \<lfloor>q\<rfloor>; r = q - of_int f
      in if r < 1 / 2 then f else if r > 1 / 2 then f + 1 else if even f then f else f + 1)"

text \<open>The number of bits of a natural number, and the power of two with an integer exponent.\<close>

fun bitLength :: "nat \<Rightarrow> nat" where
  "bitLength n = (if n = 0 then 0 else Suc (bitLength (n div 2)))"

declare bitLength.simps [simp del]

definition pow2 :: "int \<Rightarrow> rat" where
  "pow2 e = (if 0 \<le> e then 2 ^ nat e else 1 / 2 ^ nat (- e))"

text \<open>The exponent \<open>e\<close> with \<open>2 ^ e \<le> \<bar>q\<bar> < 2 ^ (e + 1)\<close>, for \<open>q\<close> other than zero.\<close>

definition binade :: "rat \<Rightarrow> int" where
  "binade q =
     (if 1 \<le> \<bar>q\<bar> then int (bitLength (nat \<lfloor>\<bar>q\<bar>\<rfloor>)) - 1
      else - int (bitLength (nat \<lceil>1 / \<bar>q\<bar>\<rceil> - 1)))"

definition fl :: "rat \<Rightarrow> rat" where
  "fl q =
     (if q = 0 then 0
      else (let e = binade q - 52 in of_int (roundHalfEven (q / pow2 e)) * pow2 e))"

definition fmtFixed :: "nat \<Rightarrow> rat \<Rightarrow> string" where
  "fmtFixed k v =
     (let n = nat (roundHalfEven (\<bar>v\<bar> * 10 ^ k))
      in (if v < 0 then ''-'' else []) @ decimal (n div 10 ^ k) @ ''.''
         @ padZero k (decimal (n mod 10 ^ k)))"

definition trimRight :: "char \<Rightarrow> string \<Rightarrow> string" where
  "trimRight c s = rev (dropWhile (\<lambda>x. x = c) (rev s))"

definition realStr :: "rat \<Rightarrow> string" where
  "realStr v = trimRight (CHR ''.'') (trimRight (CHR ''0'') (fmtFixed 3 v))"

text \<open>
  A muffler colour is a \<open>color.Color\<close>. The type switch of \<open>makeColorInfo\<close> tells the values
  of type \<open>color.Gray\<close>, \<open>color.Gray16\<close> and \<open>color.CMYK\<close> from everything else, which it
  reads through the method \<open>RGBA\<close>: \<open>NRGBA\<close> is a (pointer to a) \<open>color.NRGBA\<close>, and
  \<open>OtherColor r g b\<close> any other colour whose \<open>RGBA\<close> returns these components.
\<close>

datatype color =
  Gray nat | Gray16 nat | CMYK nat nat nat nat | NRGBA nat nat nat nat | OtherColor nat nat nat

record colorInfo =
  op :: string
  params :: "rat list"

definition makeParams :: "nat \<Rightarrow> nat list \<Rightarrow> rat list" where
  "makeParams mv v = map (\<lambda>x. fl (of_nat x / of_nat mv)) v"

fun makeColorInfo :: "color \<Rightarrow> colorInfo" where
  "makeColorInfo (Gray y) = \<lparr>op = ''g'', params = makeParams 0xFF [y]\<rparr>"
| "makeColorInfo (Gray16 y) = \<lparr>op = ''g'', params = makeParams 0xFFFF [y]\<rparr>"
| "makeColorInfo (CMYK c m y k) = \<lparr>op = ''k'', params = makeParams 0xFF [c, m, y, k]\<rparr>"
| "makeColorInfo (NRGBA r g b a) =
     \<lparr>op = ''rg'', params = makeParams 0xFFFF
        [r * 257 * a div 255, g * 257 * a div 255, b * 257 * a div 255]\<rparr>"
| "makeColorInfo (OtherColor r g b) = \<lparr>op = ''rg'', params = makeParams 0xFFFF [r, g, b]\<rparr>"

definition toUpper :: "string \<Rightarrow> string" where
  "toUpper s = map (\<lambda>c. if 97 \<le> (of_char c :: nat) \<and> (of_char c :: nat) \<le> 122
                           then char_of ((of_char c :: nat) - 32) else c) s"

definition pdfCode :: "colorInfo \<Rightarrow> bool \<Rightarrow> string" where
  "pdfCode ci fill =
     concat (map (\<lambda>p. realStr p @ '' '') (params ci)) @ (if fill then op ci else toUpper (op ci))"

definition str4 :: "rat \<Rightarrow> string" where
  "str4 v = trimRight (CHR ''.'') (trimRight (CHR ''0'') (fmtFixed 4 v))"

text \<open>\<open>fmt.Fprintln\<close> of strings: the operands separated by spaces, then a newline.\<close>

fun joinSp :: "string list \<Rightarrow> string" where
  "joinSp [] = []"
| "joinSp [x] = x"
| "joinSp (x # y # ys) = x @ [SP] @ joinSp (y # ys)"

definition println :: "string list \<Rightarrow> string" where
  "println xs = joinSp xs @ [NL]"

definition eoCircle :: "rat \<Rightarrow> rat \<Rightarrow> rat \<Rightarrow> rat \<Rightarrow> string \<Rightarrow> string" where
  "eoCircle cx cy rx ry p =
     (let a = fl (55228475 / 100000000) in
        println [str4 (fl (cx + rx)), str4 cy, ''m'']
        @ println [str4 (fl (cx + rx)), str4 (fl (cy + fl (a * ry))), str4 (fl (cx + fl (a * rx))),
                   str4 (fl (cy + ry)), str4 cx, str4 (fl (cy + ry)), ''c'']
        @ println [str4 (fl (cx - fl (a * rx))), str4 (fl (cy + ry)), str4 (fl (cx - rx)),
                   str4 (fl (cy + fl (a * ry))), str4 (fl (cx - rx)), str4 cy, ''c'']
        @ println [str4 (fl (cx - rx)), str4 (fl (cy - fl (a * ry))), str4 (fl (cx - fl (a * rx))),
                   str4 (fl (cy - ry)), str4 cx, str4 (fl (cy - ry)), ''c'']
        @ println [str4 (fl (cx + fl (a * rx))), str4 (fl (cy - ry)), str4 (fl (cx + rx)),
                   str4 (fl (cy - fl (a * ry))), str4 (fl (cx + rx)), str4 cy, ''c'', p])"

definition eoBodyCode :: string where
  "eoBodyCode =
     ''0.5 0.72 m 0.64 0.72 0.76 0.65 0.76 0.55 c'' @ [NL] @
     ''0.76 0.51 0.72 0.47 0.67 0.44 c 0.79 0.41 0.84 0.32 0.84 0.25 c'' @ [NL] @
     ''0.84 0.13 0.75 0.08 0.68 0.08 c 0.32 0.08 l'' @ [NL] @
     ''0.25 0.08 0.16 0.13 0.16 0.25 c 0.16 0.32 0.21 0.41 0.33 0.44 c'' @ [NL] @
     ''0.28 0.47 0.24 0.51 0.24 0.55 c 0.24 0.65 0.36 0.72 0.5 0.72 c s''"

definition eoMouthCode :: string where
  "eoMouthCode =
     ''0.40 0.48 m 0.45 0.45 0.55 0.45 0.60 0.48 c S''"

definition eoHatCode :: string where
  "eoHatCode =
     ''0.58 0.90 m 0.77 0.81 l 0.74 0.61 l 0.66 0.60 0.50 0.66 0.46 0.72 c'' @ [NL] @
     ''0.58 0.90 l b''"

definition eoArmsCode :: string where
  "eoArmsCode =
     ''0.20 0.31 m 0.19 0.33 0.14 0.41 0.13 0.42 c'' @ [NL] @
     ''0.12 0.43 0.10 0.43 0.07 0.44 c 0.04 0.46 0.06 0.46 0.08 0.46 c'' @ [NL] @
     ''0.09 0.46 0.11 0.44 0.12 0.44 c 0.14 0.46 0.14 0.47 0.15 0.49 c'' @ [NL] @
     ''0.16 0.51 0.16 0.49 0.16 0.48 c 0.16 0.46 0.14 0.44 0.15 0.43 c'' @ [NL] @
     ''0.16 0.42 0.21 0.35 0.22 0.33 c 0.23 0.31 0.21 0.30 0.20 0.31 c b'' @ [NL] @
     ''0.80 0.31 m 0.81 0.33 0.86 0.41 0.87 0.42 c'' @ [NL] @
     ''0.88 0.43 0.90 0.43 0.93 0.44 c 0.96 0.46 0.94 0.46 0.92 0.46 c'' @ [NL] @
     ''0.91 0.46 0.89 0.44 0.88 0.44 c 0.86 0.46 0.86 0.47 0.85 0.49 c'' @ [NL] @
     ''0.84 0.51 0.84 0.49 0.84 0.48 c 0.84 0.46 0.86 0.44 0.85 0.43 c'' @ [NL] @
     ''0.84 0.42 0.79 0.35 0.78 0.33 c 0.77 0.31 0.79 0.30 0.80 0.31 c b''"

definition eoMufflerCode :: string where
  "eoMufflerCode =
     ''0.27 0.48 m 0.42 0.38 0.58 0.38 0.73 0.48 c'' @ [NL] @
     ''0.75 0.46 0.76 0.44 0.77 0.41 c 0.77 0.39 0.75 0.37 0.73 0.36 c'' @ [NL] @
     ''0.74 0.33 0.74 0.31 0.76 0.26 c 0.75 0.25 0.72 0.24 0.66 0.23 c'' @ [NL] @
     ''0.66 0.27 0.65 0.30 0.63 0.34 c 0.42 0.30 0.32 0.35 0.24 0.41 c'' @ [NL] @
     ''0.25 0.45 0.26 0.47 0.27 0.48 c b''"

definition eoEyesCode :: string where
  "eoEyesCode = eoCircle (fl (40 / 100)) (fl (56 / 100)) (fl (2 / 100)) (fl (3 / 100)) ''f''
                @ eoCircle (fl (60 / 100)) (fl (56 / 100)) (fl (2 / 100)) (fl (3 / 100)) ''f''"

definition eoButtonsCode :: string where
  "eoButtonsCode = eoCircle (fl (50 / 100)) (fl (16 / 100)) (fl (3 / 100)) (fl (3 / 100)) ''b''
                   @ eoCircle (fl (50 / 100)) (fl (26 / 100)) (fl (3 / 100)) (fl (3 / 100)) ''b''"

definition eoSnowCode :: string where
  "eoSnowCode =
     eoCircle (fl (7 / 100)) (fl (28 / 100)) (fl (4 / 100)) (fl (4 / 100)) ''s''
     @ eoCircle (fl (8 / 100)) (fl (68 / 100)) (fl (4 / 100)) (fl (4 / 100)) ''s''
     @ eoCircle (fl (13 / 100)) (fl (55 / 100)) (fl (4 / 100)) (fl (4 / 100)) ''s''
     @ eoCircle (fl (23 / 100)) (fl (76 / 100)) (fl (4 / 100)) (fl (4 / 100)) ''s''
     @ eoCircle (fl (42 / 100)) (fl (89 / 100)) (fl (4 / 100)) (fl (4 / 100)) ''s''
     @ eoCircle (fl (74 / 100)) (fl (89 / 100)) (fl (4 / 100)) (fl (4 / 100)) ''s''
     @ eoCircle (fl (88 / 100)) (fl (73 / 100)) (fl (4 / 100)) (fl (4 / 100)) ''s''
     @ eoCircle (fl (92 / 100)) (fl (53 / 100)) (fl (4 / 100)) (fl (4 / 100)) ''s''
     @ eoCircle (fl (94 / 100)) (fl (23 / 100)) (fl (4 / 100)) (fl (4 / 100)) ''s''"

text \<open>\<open>essentialCode\<close>; its second argument is not used.\<close>

definition essentialCode :: "color \<Rightarrow> string" where
  "essentialCode m =
     (let ci = makeColorInfo m in
        println [''0 G 0 g 1 j 1 J 0.01389 w'']
        @ println [eoBodyCode]
        @ eoEyesCode
        @ println [eoMouthCode]
        @ println [eoHatCode]
        @ println [eoArmsCode]
        @ eoButtonsCode
        @ eoSnowCode
        @ println [pdfCode ci False, pdfCode ci True]
        @ println [eoMufflerCode])"

section \<open>The document\<close>

record page =
  muffler :: color
  scale :: rat

record Doc =
  width :: rat
  height :: rat
  dpages :: "page list"
  frozen :: bool
  info :: "string \<rightharpoonup> string"

definition dfltWidth :: rat where
  "dfltWidth = fl (210 * 72 / (254 / 10))"

definition dfltHeight :: rat where
  "dfltHeight = fl (294 * 72 / (254 / 10))"

definition dfltMuffler :: color where
  "dfltMuffler = NRGBA 255 0 0 255"

definition stdScale :: rat where
  "stdScale = fl (6 / 10)"

text \<open>The zero value \<open>Doc{}\<close>.\<close>

definition emptyDoc :: Doc where
  "emptyDoc = \<lparr>width = 0, height = 0, dpages = [], frozen = False, info = Map.empty\<rparr>"

definition SetPageSize :: "Doc \<Rightarrow> rat \<Rightarrow> rat \<Rightarrow> error option \<times> Doc" where
  "SetPageSize d w h =
     (if frozen d then (Some ErrFrozen, d)
      else if w \<le> 0 \<or> h \<le> 0 then (Some ErrPageSize, d)
      else (None, d\<lparr>width := w, height := h\<rparr>))"

definition NewWithSize :: "rat \<Rightarrow> rat \<Rightarrow> error option \<times> Doc" where
  "NewWithSize w h = SetPageSize emptyDoc w h"

definition autoPageSize :: "Doc \<Rightarrow> Doc" where
  "autoPageSize d =
     (if width d = 0 \<and> height d = 0 then d\<lparr>width := dfltWidth, height := dfltHeight\<rparr> else d)"

text \<open>A \<open>nil\<close> muffler is \<open>None\<close>.\<close>

definition AddPageScaled :: "Doc \<Rightarrow> color option \<Rightarrow> rat \<Rightarrow> error option \<times> Doc" where
  "AddPageScaled d m sc =
     (if frozen d then (Some ErrFrozen, d)
      else if sc \<le> 0 then (Some ErrScale, d)
      else
        (case m of
           None \<Rightarrow> (Some ErrMuffler, d)
         | Some c \<Rightarrow> (None, d\<lparr>dpages := dpages d @ [\<lparr>muffler = c, scale = fl (sc * stdScale)\<rparr>]\<rparr>)))"

definition AddPage :: "Doc \<Rightarrow> color option \<Rightarrow> error option \<times> Doc" where
  "AddPage d m = AddPageScaled d m 1"

definition SetDocInfo :: "Doc \<Rightarrow> (string \<rightharpoonup> string) \<Rightarrow> error option \<times> Doc" where
  "SetDocInfo d i = (if frozen d then (Some ErrFrozen, d) else (None, d\<lparr>info := i\<rparr>))"

definition transformCode :: "rat \<Rightarrow> rat \<Rightarrow> rat \<Rightarrow> string" where
  "transformCode w h sc =
     (let len = fl (max w h * sc); ox = fl (fl (w - len) / 2); oy = fl (fl (h - len) / 2)
      in realStr len @ '' 0 0 '' @ realStr len @ '' '' @ realStr ox @ '' '' @ realStr oy @ '' cm'')"

text \<open>
  The content stream of a page. \<open>essentialCode\<close> is passed to \<open>Fprintf\<close> as the format;
  it holds no percent sign, so it is printed as it is.
\<close>

definition pageContent :: "Doc \<Rightarrow> page \<Rightarrow> string" where
  "pageContent d p =
     println [''q'', transformCode (width d) (height d) (scale p)]
     @ essentialCode (muffler p) @ println [''Q'']"

definition mediaBox :: "Doc \<Rightarrow> string" where
  "mediaBox d = ''/MediaBox[0 0 '' @ realStr (width d) @ '' '' @ realStr (height d) @ '']''"

fun pagesLoop ::
  "(string \<Rightarrow> string) \<Rightarrow> Doc \<Rightarrow> nat \<Rightarrow> page list \<Rightarrow> pdfDoc \<Rightarrow> status \<times> pdfDoc" where
  "pagesLoop zlib d resources [] pd = (Success, pd)"
| "pagesLoop zlib d resources (p # ps) pd =
     (case newId pd of
        (contents, pd1) \<Rightarrow>
          (case addStream zlib pd1 contents (pageContent d p) of
             (Success, pd2) \<Rightarrow>
               (case newId pd2 of
                  (pid, pd3) \<Rightarrow>
                    (case addPage pd3 pid contents resources (mediaBox d) of
                       (Success, pd4) \<Rightarrow> pagesLoop zlib d resources ps pd4
                     | r \<Rightarrow> r))
           | r \<Rightarrow> r))"

text \<open>
  \<open>WriteTo\<close> from the creation of the low-level document on. The error of the
  \<open>addObject\<close> for the resources is assigned and not looked at.
\<close>

definition generate ::
  "(string \<Rightarrow> string) \<Rightarrow> (string \<Rightarrow> string) \<Rightarrow> gotime \<Rightarrow> Doc \<Rightarrow> sink \<Rightarrow> status \<times> pdfDoc" where
  "generate zlib md5 now d s =
     (case newPdfDoc s (info d) of
        (Some e, pd) \<Rightarrow> (Failure (ErrIO e), pd)
      | (None, pd) \<Rightarrow>
          (case newId pd of
             (resources, pd1) \<Rightarrow>
               (case addObject pd1 resources (''<</ProcSet[/PDF]>>'' @ [NL]) of
                  (Panicked, pd2) \<Rightarrow> (Panicked, pd2)
                | (_, pd2) \<Rightarrow>
                    (case pagesLoop zlib d resources (dpages d) pd2 of
                       (Success, pd3) \<Rightarrow> finish md5 now pd3
                     | r \<Rightarrow> r))))"

text \<open>
  \<open>WriteTo\<close> returns the number of bytes, the error, the document and the sink as the call
  leaves them.
\<close>

definition WriteTo ::
  "(string \<Rightarrow> string) \<Rightarrow> (string \<Rightarrow> string) \<Rightarrow> gotime \<Rightarrow> Doc \<Rightarrow> sink
     \<Rightarrow> nat \<times> status \<times> Doc \<times> sink" where
  "WriteTo zlib md5 now d s =
     (let d1 = autoPageSize d in
        case (if dpages d1 = [] then AddPage d1 (Some dfltMuffler) else (None, d1)) of
          (Some e, d2) \<Rightarrow> (0, Failure e, d2, s)
        | (None, d2) \<Rightarrow>
            (let d3 = d2\<lparr>frozen := True\<rparr> in
               case generate zlib md5 now d3 s of
                 (st, pd) \<Rightarrow> (pos pd, st, d3, wr (writer pd))))"

section \<open>Notions for stating and proving the properties\<close>

definition emitted :: "bufwriter \<Rightarrow> string" where
  "emitted w = received (wr w) @ buf w"

definition callsFrom :: "ioerr option list \<Rightarrow> bufwriter \<Rightarrow> bool" where
  "callsFrom l0 w =
     (\<exists>k. calls (wr w) = l0 @ replicate k None @ (case werr w of None \<Rightarrow> [] | Some e \<Rightarrow> [Some e]))"

definition tracked :: "ioerr option list \<Rightarrow> bool \<Rightarrow> bufwriter \<Rightarrow> bool" where
  "tracked l0 r w = (callsFrom l0 w \<and> (r \<longrightarrow> werr w = None \<and> script (wr w) = []))"

definition sameMeta :: "pdfDoc \<Rightarrow> pdfDoc \<Rightarrow> bool" where
  "sameMeta d d' =
     (pagesId d' = pagesId d \<and> version d' = version d \<and> title d' = title d
      \<and> author d' = author d \<and> subject d' = subject d \<and> producer d' = producer d
      \<and> creator d' = creator d \<and> creationDate d' = creationDate d)"

definition fresh :: "pdfDoc \<Rightarrow> nat \<Rightarrow> bool" where
  "fresh d i = (0 < i \<and> i < length (xref d) \<and> xref d ! i = 0)"

definition startThenWrite :: "pdfDoc \<Rightarrow> nat \<Rightarrow> nat list \<Rightarrow> string list \<Rightarrow> status \<times> pdfDoc" where
  "startThenWrite d i ps cs =
     (case startObject d i of
        (Success, d1) \<Rightarrow>
          (case write_pdf (d1\<lparr>pages := pages d1 @ ps\<rparr>) cs of (err, d2) \<Rightarrow> (ioStatus err, d2))
      | r \<Rightarrow> r)"

definition started :: "pdfDoc \<Rightarrow> bool" where
  "started d = (0 < pos d \<and> pagesId d = 1 \<and> 2 \<le> length (xref d)
                \<and> (\<forall>i. 2 \<le> i \<and> i < length (xref d) \<longrightarrow> 0 < xref d ! i))"

definition xrefEntries :: "nat list \<Rightarrow> string" where
  "xrefEntries x = concat (map xrefEntry (tl x))"

definition resolveDate :: "gotime \<Rightarrow> pdfDoc \<Rightarrow> string run" where
  "resolveDate now d = (if creationDate d = pdfUseNow then pdfFormatDate now else Returns (creationDate d))"

definition catalogChunks :: "nat \<Rightarrow> string list" where
  "catalogChunks p =
     [''<</Type/Catalog/Pages '' @ idString p @ ''>>'',
      pdfNewLine (''<</Type/Catalog/Pages '' @ idString p @ ''>>''), ''endobj'' @ [NL]]"


definition objAt :: "string \<Rightarrow> nat \<Rightarrow> nat \<Rightarrow> bool" where
  "objAt doc off i = (take (length (objHeader i)) (drop off doc) = objHeader i)"

definition located :: "string \<Rightarrow> pdfDoc \<Rightarrow> bool" where
  "located doc d = (pos d = length doc
     \<and> (\<forall>i. 0 < i \<and> i < length (xref d) \<and> 0 < xref d ! i \<longrightarrow> objAt doc (xref d ! i) i))"

definition pagesObj :: "pdfDoc \<Rightarrow> string" where
  "pagesObj d = objHeader (pagesId d) @ concat (pagesChunks (pages d))"

definition catalogObj :: "pdfDoc \<Rightarrow> string" where
  "catalogObj d = objHeader (length (xref d)) @ concat (catalogChunks (pagesId d))"

definition infoObj :: "string \<Rightarrow> pdfDoc \<Rightarrow> string" where
  "infoObj cd d = objHeader (Suc (length (xref d))) @ concat (infoChunks (d\<lparr>creationDate := cd\<rparr>))"

definition finalXref :: "pdfDoc \<Rightarrow> nat list" where
  "finalXref d = (xref d)[pagesId d := pos d]
                 @ [pos d + length (pagesObj d), pos d + length (pagesObj d) + length (catalogObj d)]"

definition xrefPosOf :: "string \<Rightarrow> pdfDoc \<Rightarrow> nat" where
  "xrefPosOf cd d = pos d + length (pagesObj d) + length (catalogObj d) + length (infoObj cd d)"

definition xrefTable :: "nat list \<Rightarrow> string" where
  "xrefTable x = concat (xrefHead (length x)) @ xrefEntries x"

definition trailerOf :: "(string \<Rightarrow> string) \<Rightarrow> string \<Rightarrow> pdfDoc \<Rightarrow> string" where
  "trailerOf md5 cd d =
     concat (trailerChunks md5 (d\<lparr>creationDate := cd\<rparr>) (length (xref d) + 2) (length (xref d))
               (Suc (length (xref d))) (xrefPosOf cd d))"

definition resourcesChunks :: "string list" where
  "resourcesChunks = [''<</ProcSet[/PDF]>>'' @ [NL], pdfNewLine (''<</ProcSet[/PDF]>>'' @ [NL]), ''endobj'' @ [NL]]"

fun pagesBytes :: "(string \<Rightarrow> string) \<Rightarrow> Doc \<Rightarrow> nat \<Rightarrow> nat \<Rightarrow> page list \<Rightarrow> string" where
  "pagesBytes zlib d res c [] = []"
| "pagesBytes zlib d res c (p # ps) =
     objHeader c @ concat (streamChunks (streamData zlib (pageContent d p)))
     @ objHeader (Suc c) @ concat (pageChunks c res 1 (mediaBox d))
     @ pagesBytes zlib d res (c + 2) ps"

fun pageIds :: "nat \<Rightarrow> 'a list \<Rightarrow> nat list" where
  "pageIds c [] = []"
| "pageIds c (p # ps) = Suc c # pageIds (c + 2) ps"

definition bodyBytes :: "(string \<Rightarrow> string) \<Rightarrow> Doc \<Rightarrow> string" where
  "bodyBytes zlib d =
     concat (pdfHeader (infoGet (info d) ''version'' dfltPdfVersion))
     @ objHeader 2 @ concat resourcesChunks
     @ pagesBytes zlib d 2 3 (dpages d)"

definition dateOf :: "gotime \<Rightarrow> (string \<rightharpoonup> string) \<Rightarrow> string run" where
  "dateOf now nfo =
     (if infoGet nfo ''creationDate'' pdfUseNow = pdfUseNow then pdfFormatDate now
      else Returns (infoGet nfo ''creationDate'' pdfUseNow))"

definition isDigitChar :: "char \<Rightarrow> bool" where
  "isDigitChar c = (48 \<le> (of_char c :: nat) \<and> (of_char c :: nat) \<le> 57)"

definition natOfDecimal :: "string \<Rightarrow> nat" where
  "natOfDecimal s = foldl (\<lambda>a c. 10 * a + digitVal c) 0 s"

definition prepared :: "Doc \<Rightarrow> Doc" where
  "prepared d =
     (let d1 = autoPageSize d in
        (if dpages d1 = [] then d1\<lparr>dpages := [\<lparr>muffler = dfltMuffler, scale = fl (1 * stdScale)\<rparr>]\<rparr>
         else d1)\<lparr>frozen := True\<rparr>)"

definition noon :: gotime where
  "noon = \<lparr>year = 2018, month = 11, day = 30, hour = 12, minute = 0, second = 0, nsec = 0,
            zoneOffset = 32400\<rparr>"

definition quiet :: sink where
  "quiet = \<lparr>received = [], script = [], calls = []\<rparr>"

definition blank :: pdfDoc where
  "blank = \<lparr>writer = newWriter quiet, pos = 0, xref = [0, 0, 0], pages = [], pagesId = 1,
             version = [], title = [], author = [], subject = [], producer = [], creator = [],
             creationDate = []\<rparr>"

definition hexVal :: "char \<Rightarrow> nat" where
  "hexVal c = (if (of_char c :: nat) \<le> 57 then of_char c - 48 else of_char c - 55)"

fun bytesOfHex :: "string \<Rightarrow> string" where
  "bytesOfHex (a # b # r) = char_of (hexVal a * 16 + hexVal b) # bytesOfHex r"
| "bytesOfHex r = []"

definition isUpperHex :: "char \<Rightarrow> bool" where
  "isUpperHex c = (c \<in> set ''0123456789ABCDEF'')"





definition sized :: Doc where
  "sized = emptyDoc\<lparr>width := 100, height := 200\<rparr>"

text \<open>
  The bytes that a literal string of PDF denotes, for the text between its outer
  parentheses: the backslash is the escape character, followed by \<open>n\<close>, \<open>r\<close>, \<open>t\<close>,
  \<open>b\<close>, \<open>f\<close>, a parenthesis, a backslash, one to three octal digits, or a newline, which
  is skipped with it; before any other character the backslash is ignored.
\<close>

definition isOctal :: "char \<Rightarrow> bool" where
  "isOctal c = (48 \<le> (of_char c :: nat) \<and> (of_char c :: nat) \<le> 55)"

definition octalValue :: "string \<Rightarrow> nat" where
  "octalValue ds = foldl (\<lambda>a c. 8 * a + ((of_char c :: nat) - 48)) 0 ds"

function literalBytes :: "string \<Rightarrow> string" where
  "literalBytes [] = []"
| "literalBytes (c # r) =
     (if c \<noteq> BSL then c # literalBytes r
      else
        (case r of
           [] \<Rightarrow> []
         | e # r' \<Rightarrow>
             if e = CHR ''n'' then CHR 0x0A # literalBytes r'
             else if e = CHR ''r'' then CHR 0x0D # literalBytes r'
             else if e = CHR ''t'' then CHR 0x09 # literalBytes r'
             else if e = CHR ''b'' then CHR 0x08 # literalBytes r'
             else if e = CHR ''f'' then CHR 0x0C # literalBytes r'
             else if e = CHR ''('' \<or> e = CHR '')'' \<or> e = BSL then e # literalBytes r'
             else if e = CHR 0x0A then literalBytes r'
             else if isOctal e then
               (let ds = takeWhile isOctal (take 3 r)
                in char_of (octalValue ds) # literalBytes (drop (length ds) r))
             else literalBytes r))"
  by pat_completeness auto
termination
  by (relation "measure length") auto

definition pdfLiteralDecode :: "string \<Rightarrow> string option" where
  "pdfLiteralDecode s =
     (if 2 \<le> length s \<and> hd s = CHR ''('' \<and> last s = CHR '')''
      then Some (literalBytes (butlast (tl s))) else None)"

text \<open>
  The layout of the kids: \<open>refs\<close> is a line, the references of its pages separated by
  spaces; \<open>joinNl\<close> joins lines with newlines. \<open>lineOk cur l\<close> says that on a line that
  starts after \<open>cur\<close> bytes no reference but the last ends beyond 70 bytes, and
  \<open>broken cur ls\<close> that every line is not empty and such a line, and every line but the
  last longer than 70 bytes; the first line starts after \<open>cur\<close> bytes, the others after
  none.
\<close>

definition refs :: "nat list \<Rightarrow> string" where
  "refs line = joinSp (map idString line)"

fun joinNl :: "string list \<Rightarrow> string" where
  "joinNl [] = []"
| "joinNl [x] = x"
| "joinNl (x # y # ys) = x @ [NL] @ joinNl (y # ys)"

fun lineOk :: "nat \<Rightarrow> nat list \<Rightarrow> bool" where
  "lineOk cur [] = True"
| "lineOk cur [i] = True"
| "lineOk cur (i # j # r) =
     (cur + length (idString i) \<le> 70 \<and> lineOk (cur + length (idString i) + 1) (j # r))"

fun broken :: "nat \<Rightarrow> nat list list \<Rightarrow> bool" where
  "broken cur [] = True"
| "broken cur [l] = (l \<noteq> [] \<and> lineOk cur l)"
| "broken cur (l # m # ls) =
     (l \<noteq> [] \<and> lineOk cur l \<and> cur + length (refs l) > 70 \<and> broken 0 (m # ls))"

definition manyKids :: "nat list" where
  "manyKids = [4, 6, 8, 10, 12, 14, 16, 18, 20, 22, 24, 26, 28, 30, 32, 34, 36, 38, 40]"

section \<open>Lemmas\<close>

lemma append_eq_split:
  assumes "a @ b = c @ d" "length a = length c + n"
  shows "a = c @ take n d" and "b = drop n d"
proof -
  have "take (length a) (a @ b) = take (length a) (c @ d)"
    using assms(1) by simp
  then show "a = c @ take n d"
    using assms(2) by simp
  have "drop (length a) (a @ b) = drop (length a) (c @ d)"
    using assms(1) by simp
  then show "b = drop n d"
    using assms(2) by simp
qed

lemma sinkWrite_facts:
  assumes "sinkWrite s p = (n, err, s')"
  shows "received s' = received s @ take n p" and "n \<le> length p"
    and "err = None \<Longrightarrow> n = length p" and "calls s' = calls s @ [err]"
  using assms by (auto simp: sinkWrite_def min_def split: list.splits response.splits)

lemma sinkWrite_reliable:
  "sinkWrite s p = (n, err, s') \<Longrightarrow> script s = [] \<Longrightarrow> err = None \<and> script s' = []"
  by (auto simp: sinkWrite_def)

lemma callsFrom_step:
  assumes "callsFrom l0 w" "werr w = None" "calls s' = calls (wr w) @ [err]"
  shows "callsFrom l0 (w\<lparr>buf := b, werr := err, wr := s'\<rparr>)"
proof -
  from assms(1,2) obtain k where k: "calls (wr w) = l0 @ replicate k None"
    by (auto simp: callsFrom_def)
  show ?thesis
  proof (cases err)
    case None
    with k assms(3) have "calls s' = l0 @ replicate (Suc k) None @ []"
      by (simp add: replicate_append_same)
    with None show ?thesis unfolding callsFrom_def by (intro exI [of _ "Suc k"]) simp
  next
    case (Some e)
    with k assms(3) show ?thesis unfolding callsFrom_def by auto
  qed
qed

lemma bufFlush_sticky: "werr w = Some e \<Longrightarrow> bufFlush w = (Some e, w)"
  by (simp add: bufFlush_def)

lemma bufFlush_facts:
  assumes "bufFlush w = (err, w')"
  shows "emitted w' = emitted w" and "werr w' = err"
    and "tracked l0 r w \<Longrightarrow> tracked l0 r w'"
    and "err = None \<Longrightarrow> buf w' = []"
proof -
  show "emitted w' = emitted w"
    using assms
    by (auto simp: bufFlush_def emitted_def split: option.splits if_splits prod.splits
             dest!: sinkWrite_facts(1))
  show "werr w' = err"
    using assms
    by (auto simp: bufFlush_def split: option.splits if_splits prod.splits)
  show "err = None \<Longrightarrow> buf w' = []"
    using assms
    by (auto simp: bufFlush_def split: option.splits if_splits prod.splits)
  show "tracked l0 r w'" if tr: "tracked l0 r w"
  proof (cases "werr w = None \<and> buf w \<noteq> []")
    case False
    with assms tr show ?thesis
      by (auto simp: bufFlush_def split: option.splits if_splits)
  next
    case True
    obtain n e s' where sw: "sinkWrite (wr w) (buf w) = (n, e, s')"
      by (cases "sinkWrite (wr w) (buf w)") auto
    from sinkWrite_facts(3) [OF sw] have ne: "\<not> (n < length (buf w) \<and> e = None)"
      by auto
    from True sw ne assms have w': "w' = w\<lparr>buf := buf w', werr := e, wr := s'\<rparr>"
      by (auto simp: bufFlush_def split: option.splits if_splits)
    from tr have cf: "callsFrom l0 w" by (simp add: tracked_def)
    have "callsFrom l0 w'"
      using callsFrom_step [OF cf _ sinkWrite_facts(4) [OF sw], of "buf w'"] True w'
      by simp
    moreover have "r \<longrightarrow> werr w' = None \<and> script (wr w') = []"
      using tr sinkWrite_reliable [OF sw] w' by (auto simp: tracked_def) (metis bufwriter.select_convs(2,3) bufwriter.surjective bufwriter.update_convs(1,2,3))+
    ultimately show ?thesis by (simp add: tracked_def)
  qed
qed

lemma bufWriteLoop_sticky: "werr w = Some e \<Longrightarrow> bufWriteLoop w p nn = (w, p, nn)"
  by (simp add: bufWriteLoop.simps)

lemma bufWriteLoop_facts:
  "bufWriteLoop w p nn = (w', p', nn') \<Longrightarrow>
     emitted w' @ p' = emitted w @ p \<and> nn' + length p' = nn + length p
     \<and> (tracked l0 r w \<longrightarrow> tracked l0 r w')
     \<and> (werr w' = None \<longrightarrow> length p' \<le> available w')"
proof (induction w p nn rule: bufWriteLoop.induct)
  case (1 w p nn)
  show ?case
  proof (cases "length p > available w \<and> werr w = None")
    case False
    with "1.prems" show ?thesis
      by (auto simp: bufWriteLoop.simps)
  next
    case go: True
    show ?thesis
    proof (cases "buf w = []")
      case True
      obtain n e s' where sw: "sinkWrite (wr w) p = (n, e, s')"
        by (cases "sinkWrite (wr w) p") auto
      let ?w1 = "w\<lparr>werr := e, wr := s'\<rparr>"
      from go True sw "1.prems" have rec: "bufWriteLoop ?w1 (drop n p) (nn + n) = (w', p', nn')"
        by (simp add: bufWriteLoop.simps [of w])
      note ih = "1.IH"(1) [OF go True sw [symmetric] refl rec]
      have em: "emitted ?w1 @ drop n p = emitted w @ p"
        using sinkWrite_facts(1) [OF sw] True by (simp add: emitted_def)
      have cf: "tracked l0 r w \<Longrightarrow> tracked l0 r ?w1"
        using callsFrom_step [OF _ _ sinkWrite_facts(4) [OF sw], of l0 "buf w"] go
          sinkWrite_reliable [OF sw]
        by (auto simp: tracked_def)
      from ih em cf sinkWrite_facts(2) [OF sw] show ?thesis
        by auto
    next
      case False
      define n where "n = min (available w) (length p)"
      let ?w0 = "w\<lparr>buf := buf w @ take n p\<rparr>"
      obtain e w1 where fl: "bufFlush ?w0 = (e, w1)"
        by (cases "bufFlush ?w0") auto
      from go False fl "1.prems" have rec: "bufWriteLoop w1 (drop n p) (nn + n) = (w', p', nn')"
        by (simp add: bufWriteLoop.simps [of w] n_def Let_def)
      have "bufWriteLoop (snd (bufFlush ?w0)) (drop n p) (nn + n) = (w', p', nn')"
        using rec fl by simp
      note ih0 = "1.IH"(2) [OF go False n_def this]
      have ih: "emitted w' @ p' = emitted w1 @ drop n p \<and> nn' + length p' = nn + n + length (drop n p)
          \<and> (tracked l0 r w1 \<longrightarrow> tracked l0 r w') \<and> (werr w' = None \<longrightarrow> length p' \<le> available w')"
        using ih0 fl by simp
      have em: "emitted w1 @ drop n p = emitted w @ p"
        using bufFlush_facts(1) [OF fl] by (simp add: emitted_def)
      have cf: "tracked l0 r w \<Longrightarrow> tracked l0 r w1"
        using bufFlush_facts(3) [OF fl, of l0 r] by (simp add: callsFrom_def tracked_def)
      have "n \<le> length p" by (simp add: n_def)
      with ih em cf show ?thesis
        by auto
    qed
  qed
qed

lemma bufWrite_sticky: "werr w = Some e \<Longrightarrow> bufWrite w p = (0, Some e, w)"
  by (simp add: bufWrite_def bufWriteLoop_sticky)

lemma bufWrite_facts:
  assumes "bufWrite w p = (n, err, w')"
  shows "emitted w' = emitted w @ take n p" and "n \<le> length p"
    and "err = None \<Longrightarrow> n = length p" and "werr w' = err"
    and "tracked l0 r w \<Longrightarrow> tracked l0 r w'"
proof -
  obtain w1 p1 nn where lp: "bufWriteLoop w p 0 = (w1, p1, nn)"
    by (cases "bufWriteLoop w p 0") auto
  note f = bufWriteLoop_facts [OF lp, of l0 r]
  from f have len: "nn + length p1 = length p" by simp
  from f have em: "emitted w1 @ p1 = emitted w @ p" by simp
  have ln: "length (emitted w1) = length (emitted w) + nn"
    using len arg_cong [OF em, of length] by simp
  note tk = append_eq_split(1) [OF em ln]
  note p1 = append_eq_split(2) [OF em ln]
  show "emitted w' = emitted w @ take n p"
  proof (cases "werr w1")
    case (Some e)
    with assms lp tk show ?thesis by (auto simp: bufWrite_def)
  next
    case None
    with f have fit: "length p1 \<le> available w1" by simp
    with None assms lp have "n = nn + length p1" "w' = w1\<lparr>buf := buf w1 @ p1\<rparr>"
      by (auto simp: bufWrite_def Let_def)
    with len em show ?thesis by (simp add: emitted_def)
  qed
  show "n \<le> length p"
    using assms lp len by (auto simp: bufWrite_def Let_def split: option.splits)
  show "werr w' = err"
    using assms lp by (auto simp: bufWrite_def Let_def split: option.splits)
  show "err = None \<Longrightarrow> n = length p"
    using assms lp len f by (auto simp: bufWrite_def Let_def split: option.splits)
  show "tracked l0 r w \<Longrightarrow> tracked l0 r w'"
    using assms lp f by (auto simp: bufWrite_def Let_def callsFrom_def tracked_def split: option.splits)
qed

lemma sameMeta_refl [simp]: "sameMeta d d"
  by (simp add: sameMeta_def)

lemma sameMeta_trans: "sameMeta a b \<Longrightarrow> sameMeta b c \<Longrightarrow> sameMeta a c"
  by (simp add: sameMeta_def)

lemma sameMeta_upd [simp]:
  "sameMeta (d\<lparr>writer := w\<rparr>) d' = sameMeta d d'"
  "sameMeta (d\<lparr>pos := p\<rparr>) d' = sameMeta d d'"
  "sameMeta (d\<lparr>xref := x\<rparr>) d' = sameMeta d d'"
  "sameMeta (d\<lparr>pages := ps\<rparr>) d' = sameMeta d d'"
  "sameMeta d (d'\<lparr>writer := w\<rparr>) = sameMeta d d'"
  "sameMeta d (d'\<lparr>pos := p\<rparr>) = sameMeta d d'"
  "sameMeta d (d'\<lparr>xref := x\<rparr>) = sameMeta d d'"
  "sameMeta d (d'\<lparr>pages := ps\<rparr>) = sameMeta d d'"
  by (simp_all add: sameMeta_def)

lemma write_pdf_frame:
  "write_pdf d cs = (err, d') \<Longrightarrow> sameMeta d d' \<and> xref d' = xref d \<and> pages d' = pages d"
proof (induction cs arbitrary: d)
  case Nil
  then show ?case by auto
next
  case (Cons c cs)
  obtain n e w where bw: "bufWrite (writer d) c = (n, e, w)"
    by (cases "bufWrite (writer d) c") auto
  show ?case
  proof (cases e)
    case None
    with Cons.prems bw have "write_pdf (d\<lparr>writer := w, pos := pos d + n\<rparr>) cs = (err, d')"
      by simp
    from Cons.IH [OF this] show ?thesis
      by simp
  next
    case (Some x)
    with Cons.prems bw show ?thesis by auto
  qed
qed

lemma write_pdf_facts:
  "write_pdf d cs = (err, d') \<Longrightarrow>
     (\<exists>n. emitted (writer d') = emitted (writer d) @ take n (concat cs) \<and> pos d' = pos d + n
          \<and> n \<le> length (concat cs) \<and> (err = None \<longrightarrow> n = length (concat cs)))
     \<and> (cs \<noteq> [] \<longrightarrow> werr (writer d') = err)
     \<and> (tracked l0 r (writer d) \<longrightarrow> tracked l0 r (writer d'))"
proof (induction cs arbitrary: d)
  case Nil
  then show ?case by auto
next
  case (Cons c cs)
  obtain n e w where bw: "bufWrite (writer d) c = (n, e, w)"
    by (cases "bufWrite (writer d) c") auto
  note f = bufWrite_facts [OF bw]
  show ?case
  proof (cases e)
    case (Some x)
    with Cons.prems bw have d': "d' = d\<lparr>writer := w, pos := pos d + n\<rparr>" "err = Some x"
      by auto
    have "emitted w = emitted (writer d) @ take n (concat (c # cs))"
      using f(1,2) by simp
    moreover have "n \<le> length (concat (c # cs))"
      using f(2) by simp
    ultimately show ?thesis
      using d' f(4) f(5) [of l0 r] Some by auto
  next
    case None
    let ?d1 = "d\<lparr>writer := w, pos := pos d + n\<rparr>"
    from None Cons.prems bw have rec: "write_pdf ?d1 cs = (err, d')"
      by simp
    from f(3) None have n: "n = length c" by simp
    from Cons.IH [OF rec] obtain m where m:
      "emitted (writer d') = emitted w @ take m (concat cs)" "pos d' = pos d + n + m"
      "m \<le> length (concat cs)" "err = None \<longrightarrow> m = length (concat cs)"
      and rest: "cs \<noteq> [] \<longrightarrow> werr (writer d') = err" "tracked l0 r w \<longrightarrow> tracked l0 r (writer d')"
      by auto
    have "emitted (writer d') = emitted (writer d) @ take (n + m) (concat (c # cs))"
      using m(1) f(1) n by simp
    moreover have "cs = [] \<Longrightarrow> werr (writer d') = err"
      using rec f(4) None by auto
    ultimately show ?thesis
      using m(2,3,4) rest f(5) [of l0 r] n
      by (intro conjI exI [of _ "n + m"]) auto
  qed
qed

lemma write_pdf_ok:
  assumes "write_pdf d cs = (None, d')"
  shows "emitted (writer d') = emitted (writer d) @ concat cs"
    and "pos d' = pos d + length (concat cs)"
  using write_pdf_facts [OF assms, of "[]" False] by auto

lemma write_pdf_sticky:
  "werr (writer d) = Some e \<Longrightarrow> cs \<noteq> [] \<Longrightarrow> write_pdf d cs = (Some e, d)"
  by (cases cs) (auto simp: bufWrite_sticky)

declare write_pdf.simps [simp del]

lemma write_pdf_pos: "write_pdf d cs = (err, d') \<Longrightarrow> pos d \<le> pos d'"
  using write_pdf_facts [of d cs err d' "[]" False] by auto

lemma write_pdf_werr:
  "write_pdf d cs = (err, d') \<Longrightarrow> cs \<noteq> [] \<Longrightarrow> werr (writer d') = err"
  using write_pdf_facts [of d cs err d' "[]" False] by auto

lemma write_pdf_calls:
  "write_pdf d cs = (err, d') \<Longrightarrow> tracked l0 r (writer d) \<Longrightarrow> tracked l0 r (writer d')"
  using write_pdf_facts [of d cs err d' l0 r] by auto

lemma ioStatus_simps [simp]:
  "ioStatus err \<noteq> Panicked" "(ioStatus err = Success) = (err = None)"
  "(ioStatus err = Failure (ErrIO e)) = (err = Some e)"
  "ioStatus None = Success" "ioStatus (Some e) = Failure (ErrIO e)"
  "Panicked \<noteq> ioStatus err" "(Success = ioStatus err) = (err = None)"
  "(Failure (ErrIO e) = ioStatus err) = (err = Some e)"
  by (auto simp: ioStatus_def split: option.splits)

lemma startObject_cases:
  assumes "startObject d i = (st, d')"
  obtains (panic) "st = Panicked" "d' = d" "\<not> fresh d i"
    | (wrote) err where "fresh d i"
        "write_pdf (d\<lparr>xref := (xref d)[i := pos d]\<rparr>) [objHeader i] = (err, d')"
        "st = ioStatus err"
  using assms by (auto simp: startObject_def fresh_def split: if_splits prod.splits)

lemma startObject_facts:
  assumes "startObject d i = (st, d')"
  shows "tracked l0 r (writer d) \<Longrightarrow> tracked l0 r (writer d')"
    and "pos d \<le> pos d'"
    and "st \<noteq> Panicked \<Longrightarrow>
           st = ioStatus (werr (writer d')) \<and> fresh d i
           \<and> sameMeta d d' \<and> xref d' = (xref d)[i := pos d] \<and> pages d' = pages d"
    and "st = Panicked \<Longrightarrow> d' = d \<and> \<not> fresh d i"
    and "st = Success \<Longrightarrow> emitted (writer d') = emitted (writer d) @ objHeader i
           \<and> pos d' = pos d + length (objHeader i)"
proof -
  show "tracked l0 r (writer d) \<Longrightarrow> tracked l0 r (writer d')"
    using assms by (cases rule: startObject_cases) (auto dest: write_pdf_calls)
  show "pos d \<le> pos d'"
    using assms by (cases rule: startObject_cases) (auto dest: write_pdf_pos)
  show "st = Panicked \<Longrightarrow> d' = d \<and> \<not> fresh d i"
    using assms by (cases rule: startObject_cases) auto
  show "st = ioStatus (werr (writer d')) \<and> fresh d i
           \<and> sameMeta d d' \<and> xref d' = (xref d)[i := pos d] \<and> pages d' = pages d"
    if "st \<noteq> Panicked"
    using assms that
    by (cases rule: startObject_cases) (auto dest: write_pdf_frame write_pdf_werr)
  show "emitted (writer d') = emitted (writer d) @ objHeader i
           \<and> pos d' = pos d + length (objHeader i)" if "st = Success"
    using assms that
    by (cases rule: startObject_cases) (auto dest: write_pdf_ok)
qed

text \<open>the shape shared by addObject, addStream and addPage\<close>

lemma addObject_shape:
  "addObject d i v = startThenWrite d i [] [v, pdfNewLine v, ''endobj'' @ [NL]]"
  by (simp add: addObject_def startThenWrite_def split: prod.splits status.splits)

lemma addStream_shape:
  "addStream zlib d i dat = startThenWrite d i [] (streamChunks (streamData zlib dat))"
  by (simp add: addStream_def startThenWrite_def split: prod.splits status.splits)

lemma addPage_shape:
  "addPage d i contents resources chunk =
     startThenWrite d i [i] (pageChunks contents resources (pagesId d) chunk)"
  by (auto simp: addPage_def startThenWrite_def Let_def sameMeta_def
           split: prod.splits status.splits dest!: startObject_facts(3))

lemma startThenWrite_facts:
  assumes "startThenWrite d i ps cs = (st, d')" and "cs \<noteq> []"
  shows "tracked l0 r (writer d) \<Longrightarrow> tracked l0 r (writer d')"
    and "pos d \<le> pos d'"
    and "st \<noteq> Panicked \<Longrightarrow>
           st = ioStatus (werr (writer d')) \<and> fresh d i
           \<and> sameMeta d d' \<and> xref d' = (xref d)[i := pos d]"
    and "st = Panicked \<Longrightarrow> d' = d \<and> \<not> fresh d i"
    and "st = Success \<Longrightarrow>
           emitted (writer d') = emitted (writer d) @ objHeader i @ concat cs
           \<and> pos d' = pos d + length (objHeader i @ concat cs)
           \<and> pages d' = pages d @ ps"
proof -
  obtain s1 d1 where so: "startObject d i = (s1, d1)"
    by (cases "startObject d i") auto
  note f = startObject_facts [OF so]
  consider (stop) "s1 \<noteq> Success" "st = s1" "d' = d1"
    | (go) err where "s1 = Success" "write_pdf (d1\<lparr>pages := pages d1 @ ps\<rparr>) cs = (err, d')"
        "st = ioStatus err"
    using assms(1) so by (auto simp: startThenWrite_def split: status.splits prod.splits)
  note cs = this
  show "tracked l0 r (writer d) \<Longrightarrow> tracked l0 r (writer d')"
    using f(1) [of l0 r] by (cases rule: cs) (auto dest: write_pdf_calls [where ?l0.0 = l0 and r = r])
  show "pos d \<le> pos d'"
    using f(2) by (cases rule: cs) (auto dest: write_pdf_pos)
  show "st = Panicked \<Longrightarrow> d' = d \<and> \<not> fresh d i"
    using f(4) by (cases rule: cs) auto
  show "st = ioStatus (werr (writer d')) \<and> fresh d i
           \<and> sameMeta d d' \<and> xref d' = (xref d)[i := pos d]"
    if np: "st \<noteq> Panicked"
  proof (cases rule: cs)
    case stop
    with f(3) np show ?thesis by auto
  next
    case (go err)
    from write_pdf_frame [OF go(2)] write_pdf_werr [OF go(2) assms(2)] f(3) go(1,3)
    show ?thesis by (auto intro: sameMeta_trans)
  qed
  show "emitted (writer d') = emitted (writer d) @ objHeader i @ concat cs
           \<and> pos d' = pos d + length (objHeader i @ concat cs)
           \<and> pages d' = pages d @ ps"
    if "st = Success"
  proof (cases rule: cs)
    case stop
    with that show ?thesis by simp
  next
    case (go err)
    with that have w: "write_pdf (d1\<lparr>pages := pages d1 @ ps\<rparr>) cs = (None, d')"
      by simp
    from write_pdf_ok [OF w] write_pdf_frame [OF w] f(3,5) go(1)
    show ?thesis by simp
  qed
qed

lemma newId_simps [simp]:
  "fst (newId d) = length (xref d)" "snd (newId d) = d\<lparr>xref := xref d @ [0]\<rparr>"
  by (simp_all add: newId_def)

lemma started_step:
  assumes g: "started d" "xref d ! 1 = z"
    and sw: "startThenWrite (d\<lparr>xref := xref d @ [0]\<rparr>) (length (xref d)) ps cs = (st, d')"
    and cs: "cs \<noteq> []"
  shows "st \<noteq> Panicked" and "started d'" and "xref d' ! 1 = z"
    and "length (xref d') = Suc (length (xref d))" and "sameMeta d d'"
proof -
  let ?d1 = "d\<lparr>xref := xref d @ [0]\<rparr>" and ?i = "length (xref d)"
  note f = startThenWrite_facts [OF sw cs]
  have fr: "fresh ?d1 ?i"
    using g by (auto simp: fresh_def started_def)
  with f(4) show np: "st \<noteq> Panicked" by auto
  from f(3) [OF np] have x: "xref d' = (xref d @ [0])[?i := pos d]" and pg: "pagesId d' = pagesId d"
    by (auto simp: sameMeta_def)
  have "pos d \<le> pos d'" using f(2) by simp
  with g x pg show "started d'"
    by (auto simp: started_def nth_append nth_list_update)
  from g x show "xref d' ! 1 = z"
    by (auto simp: started_def nth_append nth_list_update)
  from x show "length (xref d') = Suc (length (xref d))" by simp
  from f(3) [OF np] show "sameMeta d d'" by simp
qed

lemma pagesLoop_facts:
  "pagesLoop zlib doc resources ps pd = (st, pd') \<Longrightarrow> started pd \<Longrightarrow> xref pd ! 1 = z \<Longrightarrow>
     st \<noteq> Panicked \<and> started pd' \<and> xref pd' ! 1 = z \<and> sameMeta pd pd'
     \<and> (st \<noteq> Success \<longrightarrow> st = ioStatus (werr (writer pd')))
     \<and> (tracked l0 r (writer pd) \<longrightarrow> tracked l0 r (writer pd'))"
proof (induction ps arbitrary: pd)
  case Nil
  then show ?case by simp
next
  case (Cons p ps)
  let ?c = "length (xref pd)"
  obtain s1 pd2 where a1: "addStream zlib (pd\<lparr>xref := xref pd @ [0]\<rparr>) ?c (pageContent doc p) = (s1, pd2)"
    by (cases "addStream zlib (pd\<lparr>xref := xref pd @ [0]\<rparr>) ?c (pageContent doc p)") auto
  then have sw1: "startThenWrite (pd\<lparr>xref := xref pd @ [0]\<rparr>) ?c [] (streamChunks (streamData zlib (pageContent doc p))) = (s1, pd2)"
    by (simp add: addStream_shape)
  have ne1: "streamChunks (streamData zlib (pageContent doc p)) \<noteq> []"
    by (simp add: streamChunks_def)
  note g1 = started_step [OF Cons.prems(2,3) sw1 ne1]
  note f1 = startThenWrite_facts [OF sw1 ne1]
  show ?case
  proof (cases "s1 = Success")
    case False
    with Cons.prems(1) a1 have "st = s1" "pd' = pd2"
      by (auto simp: newId_def split: status.splits)
    with g1 f1(1) [of l0 r] f1(3) False show ?thesis by auto
  next
    case True
    let ?i = "length (xref pd2)"
    obtain s2 pd4 where a2: "addPage (pd2\<lparr>xref := xref pd2 @ [0]\<rparr>) ?i ?c resources (mediaBox doc) = (s2, pd4)"
      by (cases "addPage (pd2\<lparr>xref := xref pd2 @ [0]\<rparr>) ?i ?c resources (mediaBox doc)") auto
    then have sw2: "startThenWrite (pd2\<lparr>xref := xref pd2 @ [0]\<rparr>) ?i [?i]
        (pageChunks ?c resources (pagesId (pd2\<lparr>xref := xref pd2 @ [0]\<rparr>)) (mediaBox doc)) = (s2, pd4)"
      by (simp add: addPage_shape)
    have ne2: "pageChunks ?c resources (pagesId (pd2\<lparr>xref := xref pd2 @ [0]\<rparr>)) (mediaBox doc) \<noteq> []"
      by (simp add: pageChunks_def)
    note g2 = started_step [OF g1(2,3) sw2 ne2]
    note f2 = startThenWrite_facts [OF sw2 ne2]
    show ?thesis
    proof (cases "s2 = Success")
      case False
      with Cons.prems(1) a1 a2 True have "st = s2" "pd' = pd4"
        by (auto simp: newId_def split: status.splits)
      with g2 f2(1) [of l0 r] f2(3) f1(1) [of l0 r] False sameMeta_trans [OF g1(5) g2(5)]
      show ?thesis by auto
    next
      case s2: True
      with Cons.prems(1) a1 a2 True have "pagesLoop zlib doc resources ps pd4 = (st, pd')"
        by (auto simp: newId_def)
      from Cons.IH [OF this g2(2,3)] f1(1) [of l0 r] f2(1) [of l0 r] g1(5) g2(5) show ?thesis
        by (auto intro: sameMeta_trans)
    qed
  qed
qed

lemma write_pdf_werr_None:
  "write_pdf d cs = (err, d') \<Longrightarrow> werr (writer d') = None \<Longrightarrow> cs \<noteq> [] \<Longrightarrow> err = None"
  using write_pdf_facts [of d cs err d' "[]" False] by auto

lemma xrefLoop_facts:
  "xrefLoop d js err = (st, d') \<Longrightarrow> err \<noteq> Panicked \<Longrightarrow>
     (tracked l0 r (writer d) \<longrightarrow> tracked l0 r (writer d'))
     \<and> pos d \<le> pos d'
     \<and> ((\<forall>i\<in>set js. 0 < xref d ! i) \<longrightarrow> st \<noteq> Panicked)
     \<and> (st \<noteq> Panicked \<longrightarrow> sameMeta d d' \<and> xref d' = xref d \<and> pages d' = pages d
           \<and> (\<forall>i\<in>set js. 0 < xref d ! i)
           \<and> (werr (writer d) \<noteq> None \<longrightarrow> writer d' = writer d)
           \<and> (werr (writer d') = None \<longrightarrow>
                emitted (writer d') = emitted (writer d) @ concat (map (\<lambda>i. xrefEntry (xref d ! i)) js)
                \<and> pos d' = pos d + length (concat (map (\<lambda>i. xrefEntry (xref d ! i)) js))))"
proof (induction js arbitrary: d err)
  case Nil
  then show ?case by auto
next
  case (Cons j js)
  show ?case
  proof (cases "0 < xref d ! j")
    case False
    with Cons.prems show ?thesis by auto
  next
    case True
    obtain e d1 where w: "write_pdf d [xrefEntry (xref d ! j)] = (e, d1)"
      by (cases "write_pdf d [xrefEntry (xref d ! j)]") auto
    with True Cons.prems have rec: "xrefLoop d1 js (ioStatus e) = (st, d')"
      by simp
    note ih = Cons.IH [OF rec ioStatus_simps(1)]
    note fr = write_pdf_frame [OF w]
    then have x: "xref d1 = xref d"
      by auto
    note wf = write_pdf_facts [OF w, of l0 r]
    have stick: "werr (writer d) \<noteq> None \<Longrightarrow> writer d1 = writer d"
      using w write_pdf_sticky [of d _ "[xrefEntry (xref d ! j)]"] by auto
    have frame: "st \<noteq> Panicked \<Longrightarrow> sameMeta d d' \<and> xref d' = xref d \<and> pages d' = pages d"
      using ih fr by (auto intro: sameMeta_trans)
    have cont: "emitted (writer d') = emitted (writer d) @ concat (map (\<lambda>i. xrefEntry (xref d ! i)) (j # js))
                \<and> pos d' = pos d + length (concat (map (\<lambda>i. xrefEntry (xref d ! i)) (j # js)))"
      if np: "st \<noteq> Panicked" and ok: "werr (writer d') = None"
    proof -
      have "werr (writer d1) = None"
      proof (rule ccontr)
        assume "werr (writer d1) \<noteq> None"
        with ih np have "writer d' = writer d1" by simp
        with ok \<open>werr (writer d1) \<noteq> None\<close> show False by simp
      qed
      then have "e = None" using write_pdf_werr_None [OF w] by simp
      with w write_pdf_ok [of d "[xrefEntry (xref d ! j)]" d1] ih np ok x show ?thesis
        by simp
    qed
    have c1: "tracked l0 r (writer d) \<longrightarrow> tracked l0 r (writer d')"
      using ih wf by simp
    have c2: "pos d \<le> pos d'"
      using ih write_pdf_pos [OF w] by simp
    have c3: "(\<forall>i\<in>set (j # js). 0 < xref d ! i) \<longrightarrow> st \<noteq> Panicked"
      using ih x by simp
    have c4: "st \<noteq> Panicked \<longrightarrow> (\<forall>i\<in>set (j # js). 0 < xref d ! i)"
      using ih x True by simp
    have c5: "st \<noteq> Panicked \<longrightarrow> werr (writer d) \<noteq> None \<longrightarrow> writer d' = writer d"
    proof (intro impI)
      assume np: "st \<noteq> Panicked" and e: "werr (writer d) \<noteq> None"
      from stick [OF e] e ih np show "writer d' = writer d" by simp
    qed
    from c1 c2 c3 c4 c5 frame cont show ?thesis
      by blast
  qed
qed

lemma bufFlush_ok:
  assumes "bufFlush w = (None, w')"
  shows "received (wr w') = emitted w" and "buf w' = []" and "werr w' = None"
  using bufFlush_facts(1,2,4) [OF assms] by (auto simp: emitted_def)

lemma map_nth_tl: "map (\<lambda>i. x ! i) [1..<length x] = tl x"
proof (cases x)
  case Nil
  then show ?thesis by simp
next
  case (Cons a list)
  have "[1..<length x] = map Suc [0..<length list]"
    using Cons by (simp add: map_Suc_upt del: upt_Suc)
  then have "map (\<lambda>i. x ! i) [1..<length x] = map (\<lambda>i. list ! i) [0..<length list]"
    using Cons by (simp del: upt_Suc)
  then show ?thesis
    using Cons by (simp add: map_nth del: upt_Suc)
qed

lemma xrefEntries_alt:
  "concat (map (\<lambda>i. xrefEntry (x ! i)) [1..<length x]) = xrefEntries x"
proof -
  have "map (\<lambda>i. xrefEntry (x ! i)) [1..<length x] = map xrefEntry (map (\<lambda>i. x ! i) [1..<length x])"
    by simp
  then show ?thesis
    by (simp only: xrefEntries_def map_nth_tl)
qed

lemma finishXref_facts:
  assumes "finishXref md5 d c i = (st, d')"
  shows "tracked l0 r (writer d) \<Longrightarrow> tracked l0 r (writer d')"
    and "st \<noteq> Panicked \<Longrightarrow> st = ioStatus (werr (writer d'))"
    and "(\<forall>j. 1 \<le> j \<and> j < length (xref d) \<longrightarrow> 0 < xref d ! j) \<Longrightarrow> st \<noteq> Panicked"
    and "st = Panicked \<Longrightarrow> werr (writer d) = None"
    and "st = Success \<Longrightarrow>
           received (wr (writer d')) = emitted (writer d) @ concat (xrefHead (length (xref d)))
             @ xrefEntries (xref d)
             @ concat (trailerChunks md5 d (length (xref d)) c i (pos d))
           \<and> pos d' = pos d + length (concat (xrefHead (length (xref d))) @ xrefEntries (xref d)
             @ concat (trailerChunks md5 d (length (xref d)) c i (pos d)))
           \<and> (\<forall>j. 1 \<le> j \<and> j < length (xref d) \<longrightarrow> 0 < xref d ! j)
           \<and> xref d' = xref d"
proof -
  let ?lmt = "length (xref d)"
  obtain e1 d1 where w1: "write_pdf d (xrefHead ?lmt) = (e1, d1)"
    by (cases "write_pdf d (xrefHead ?lmt)") auto
  have ne1: "xrefHead ?lmt \<noteq> []" by (simp add: xrefHead_def)
  note fr1 = write_pdf_frame [OF w1]
  obtain s2 d2 where l2: "xrefLoop d1 [1..<?lmt] Success = (s2, d2)"
    by (cases "xrefLoop d1 [1..<?lmt] Success") auto
  have sp: "Success \<noteq> Panicked" by simp
  note f2 = xrefLoop_facts [OF l2 sp, of l0 r]
  let ?tr = "trailerChunks md5 d2 ?lmt c i (pos d)"
  obtain e3 d3 where w3: "write_pdf d2 ?tr = (e3, d3)"
    by (cases "write_pdf d2 ?tr") auto
  have ne3: "?tr \<noteq> []" by (simp add: trailerChunks_def Let_def)
  obtain e4 w4 where fl: "bufFlush (writer d3) = (e4, w4)"
    by (cases "bufFlush (writer d3)") auto
  consider (a) e where "e1 = Some e" "st = Failure (ErrIO e)" "d' = d1"
    | (b) "e1 = None" "s2 = Panicked" "st = Panicked" "d' = d2"
    | (c) e where "e1 = None" "s2 \<noteq> Panicked" "e3 = Some e" "st = Failure (ErrIO e)" "d' = d3"
    | (d) "e1 = None" "s2 \<noteq> Panicked" "e3 = None" "st = ioStatus e4" "d' = d3\<lparr>writer := w4\<rparr>"
    using assms w1 l2 w3 fl
    by (cases e1; cases s2; cases e3) (auto simp: finishXref_def Let_def)
  note cs = this
  show "tracked l0 r (writer d) \<Longrightarrow> tracked l0 r (writer d')"
    using write_pdf_calls [OF w1, of l0 r] f2 write_pdf_calls [OF w3, of l0 r]
      bufFlush_facts(3) [OF fl, of l0 r]
    by (cases rule: cs) auto
  show "st \<noteq> Panicked \<Longrightarrow> st = ioStatus (werr (writer d'))"
    using write_pdf_werr [OF w1 ne1] write_pdf_werr [OF w3 ne3] bufFlush_facts(2) [OF fl]
    by (cases rule: cs) auto
  show "st \<noteq> Panicked" if "\<forall>j. 1 \<le> j \<and> j < length (xref d) \<longrightarrow> 0 < xref d ! j"
    using that fr1 f2 by (cases rule: cs) auto
  show "st = Panicked \<Longrightarrow> werr (writer d) = None"
    using write_pdf_sticky [of d _ "xrefHead ?lmt"] w1 ne1
    by (cases rule: cs) (auto, cases "werr (writer d)", auto)
  show "received (wr (writer d')) = emitted (writer d) @ concat (xrefHead (length (xref d)))
             @ xrefEntries (xref d)
             @ concat (trailerChunks md5 d (length (xref d)) c i (pos d))
           \<and> pos d' = pos d + length (concat (xrefHead (length (xref d))) @ xrefEntries (xref d)
             @ concat (trailerChunks md5 d (length (xref d)) c i (pos d)))
           \<and> (\<forall>j. 1 \<le> j \<and> j < length (xref d) \<longrightarrow> 0 < xref d ! j)
           \<and> xref d' = xref d"
    if "st = Success"
  proof (cases rule: cs)
    case (d)
    with that have e4: "e4 = None" by simp
    from d have w1': "write_pdf d (xrefHead ?lmt) = (None, d1)" and w3': "write_pdf d2 ?tr = (None, d3)"
      using w1 w3 by simp_all
    have werr2: "werr (writer d2) = None"
    proof (cases "werr (writer d2)")
      case (Some e)
      from write_pdf_sticky [OF Some ne3] w3' show ?thesis by simp
    qed simp
    have x1: "xref d1 = xref d" using fr1 by simp
    have tr: "trailerChunks md5 d2 ?lmt c i (pos d) = trailerChunks md5 d ?lmt c i (pos d)"
      using fr1 f2 d(2) by (simp add: trailerChunks_def sameMeta_def)
    from f2 d(2) werr2 x1 have
      em2: "emitted (writer d2) = emitted (writer d1) @ xrefEntries (xref d)"
      and p2: "pos d2 = pos d1 + length (xrefEntries (xref d))"
      and pos: "\<forall>j. 1 \<le> j \<and> j < length (xref d) \<longrightarrow> 0 < xref d ! j"
      and x2: "xref d2 = xref d"
      by (auto simp: xrefEntries_alt [symmetric] simp del: upt_Suc)
    from bufFlush_ok [OF fl [unfolded e4]] write_pdf_ok [OF w3'] write_pdf_ok [OF w1'] em2 p2 tr pos
      write_pdf_frame [OF w3'] x2 d(5)
    show ?thesis by simp
  qed (use that in auto)
qed

text \<open>the stages of finish\<close>

lemma finish_stages:
  assumes "finish md5 now d = (st, d')"
  obtains
    (s1) d1 where "startObject d (pagesId d) = (st, d1)" "st \<noteq> Success" "d' = d1"
  | (s2) d1 e where "startObject d (pagesId d) = (Success, d1)"
      "write_pdf d1 (pagesChunks (pages d1)) = (Some e, d')" "st = Failure (ErrIO e)"
  | (s3) d1 d2 where "startObject d (pagesId d) = (Success, d1)"
      "write_pdf d1 (pagesChunks (pages d1)) = (None, d2)"
      "startThenWrite (d2\<lparr>xref := xref d2 @ [0]\<rparr>) (length (xref d2)) [] (catalogChunks (pagesId d2)) = (st, d')"
      "st \<noteq> Success"
  | (s4) d1 d2 d4 where "startObject d (pagesId d) = (Success, d1)"
      "write_pdf d1 (pagesChunks (pages d1)) = (None, d2)"
      "startThenWrite (d2\<lparr>xref := xref d2 @ [0]\<rparr>) (length (xref d2)) [] (catalogChunks (pagesId d2)) = (Success, d4)"
      "resolveDate now d4 = Panics" "st = Panicked" "d' = d4"
  | (s5) d1 d2 d4 cd where "startObject d (pagesId d) = (Success, d1)"
      "write_pdf d1 (pagesChunks (pages d1)) = (None, d2)"
      "startThenWrite (d2\<lparr>xref := xref d2 @ [0]\<rparr>) (length (xref d2)) [] (catalogChunks (pagesId d2)) = (Success, d4)"
      "resolveDate now d4 = Returns cd"
      "startObject (d4\<lparr>creationDate := cd, xref := xref d4 @ [0]\<rparr>) (length (xref d4)) = (st, d')"
      "st \<noteq> Success"
  | (s6) d1 d2 d4 cd d6 e where "startObject d (pagesId d) = (Success, d1)"
      "write_pdf d1 (pagesChunks (pages d1)) = (None, d2)"
      "startThenWrite (d2\<lparr>xref := xref d2 @ [0]\<rparr>) (length (xref d2)) [] (catalogChunks (pagesId d2)) = (Success, d4)"
      "resolveDate now d4 = Returns cd"
      "startObject (d4\<lparr>creationDate := cd, xref := xref d4 @ [0]\<rparr>) (length (xref d4)) = (Success, d6)"
      "write_pdf d6 (infoChunks d6) = (Some e, d')" "st = Failure (ErrIO e)"
  | (s7) d1 d2 d4 cd d6 d7 where "startObject d (pagesId d) = (Success, d1)"
      "write_pdf d1 (pagesChunks (pages d1)) = (None, d2)"
      "startThenWrite (d2\<lparr>xref := xref d2 @ [0]\<rparr>) (length (xref d2)) [] (catalogChunks (pagesId d2)) = (Success, d4)"
      "resolveDate now d4 = Returns cd"
      "startObject (d4\<lparr>creationDate := cd, xref := xref d4 @ [0]\<rparr>) (length (xref d4)) = (Success, d6)"
      "write_pdf d6 (infoChunks d6) = (None, d7)"
      "finishXref md5 d7 (length (xref d2)) (length (xref d4)) = (st, d')"
proof -
  obtain t1 d1 where a1: "startObject d (pagesId d) = (t1, d1)"
    by (cases "startObject d (pagesId d)") auto
  show ?thesis
  proof (cases "t1 = Success")
    case False
    with assms a1 have "st = t1" "d' = d1"
      by (auto simp: finish_def split: status.splits)
    with a1 False s1 show ?thesis by simp
  next
    case t1: True
    obtain e2 d2 where a2: "write_pdf d1 (pagesChunks (pages d1)) = (e2, d2)"
      by (cases "write_pdf d1 (pagesChunks (pages d1))") auto
    show ?thesis
    proof (cases e2)
      case (Some e)
      with assms a1 a2 t1 have "st = Failure (ErrIO e)" "d' = d2"
        by (auto simp: finish_def)
      with a1 a2 t1 Some s2 show ?thesis by simp
    next
      case e2: None
      let ?d3 = "d2\<lparr>xref := xref d2 @ [0]\<rparr>" and ?c = "length (xref d2)"
      obtain t4 d4 where a4: "startThenWrite ?d3 ?c [] (catalogChunks (pagesId d2)) = (t4, d4)"
        by (cases "startThenWrite ?d3 ?c [] (catalogChunks (pagesId d2))") auto
      then have a4': "addObject ?d3 ?c (''<</Type/Catalog/Pages '' @ idString (pagesId ?d3) @ ''>>'') = (t4, d4)"
        by (simp add: addObject_shape catalogChunks_def)
      show ?thesis
      proof (cases "t4 = Success")
        case False
        with assms a1 a2 t1 e2 a4' have "st = t4" "d' = d4"
          by (auto simp: finish_def newId_def split: status.splits)
        with a1 a2 a4 t1 e2 False s3 show ?thesis by simp
      next
        case t4: True
        show ?thesis
        proof (cases "resolveDate now d4")
          case Panics
          with assms a1 a2 t1 e2 a4' t4 have "st = Panicked" "d' = d4"
            by (auto simp: finish_def newId_def resolveDate_def)
          with a1 a2 a4 t1 e2 t4 Panics s4 show ?thesis by simp
        next
          case (Returns cd)
          let ?d5 = "d4\<lparr>creationDate := cd, xref := xref d4 @ [0]\<rparr>" and ?i = "length (xref d4)"
          obtain t6 d6 where a6: "startObject ?d5 ?i = (t6, d6)"
            by (cases "startObject ?d5 ?i") auto
          show ?thesis
          proof (cases "t6 = Success")
            case False
            with assms a1 a2 t1 e2 a4' t4 Returns a6 have "st = t6" "d' = d6"
              by (auto simp: finish_def newId_def resolveDate_def split: status.splits)
            with a1 a2 a4 t1 e2 t4 Returns a6 False s5 show ?thesis by simp
          next
            case t6: True
            obtain e7 d7 where a7: "write_pdf d6 (infoChunks d6) = (e7, d7)"
              by (cases "write_pdf d6 (infoChunks d6)") auto
            show ?thesis
            proof (cases e7)
              case (Some e)
              with assms a1 a2 t1 e2 a4' t4 Returns a6 t6 a7 have "st = Failure (ErrIO e)" "d' = d7"
                by (auto simp: finish_def newId_def resolveDate_def)
              with a1 a2 a4 t1 e2 t4 Returns a6 t6 a7 Some s6 show ?thesis by simp
            next
              case None
              with assms a1 a2 t1 e2 a4' t4 Returns a6 t6 a7
              have "finishXref md5 d7 ?c ?i = (st, d')"
                by (auto simp: finish_def newId_def resolveDate_def)
              with a1 a2 a4 t1 e2 t4 Returns a6 t6 a7 None s7 show ?thesis by simp
            qed
          qed
        qed
      qed
    qed
  qed
qed

lemma catalogChunks_ne [simp]: "catalogChunks p \<noteq> []"
  by (simp add: catalogChunks_def)

lemma infoChunks_ne [simp]: "infoChunks d \<noteq> []"
  by (simp add: infoChunks_def)

lemma pagesChunks_ne [simp]: "pagesChunks ps \<noteq> []"
  by (simp add: pagesChunks_def)

lemma nth_append_len: "length xs = n \<Longrightarrow> (xs @ a # ys) ! n = a"
  by auto

lemma finish_calls:
  assumes "finish md5 now d = (st, d')" "tracked l0 r (writer d)"
  shows "tracked l0 r (writer d')"
  using assms(1)
proof (cases rule: finish_stages)
  case (s1 d1)
  then show ?thesis using startObject_facts(1) assms(2) by blast
next
  case (s2 d1 e)
  then show ?thesis using startObject_facts(1) write_pdf_calls assms(2) by blast
next
  case (s3 d1 d2)
  have "tracked l0 r (writer (d2\<lparr>xref := xref d2 @ [0]\<rparr>))"
    using s3(1,2) startObject_facts(1) write_pdf_calls assms(2) by fastforce
  with startThenWrite_facts(1) [OF s3(3)] show ?thesis by simp
next
  case (s4 d1 d2 d4)
  have "tracked l0 r (writer (d2\<lparr>xref := xref d2 @ [0]\<rparr>))"
    using s4(1,2) startObject_facts(1) write_pdf_calls assms(2) by fastforce
  with startThenWrite_facts(1) [OF s4(3)] s4(6) show ?thesis by simp
next
  case (s5 d1 d2 d4 cd)
  have "tracked l0 r (writer (d2\<lparr>xref := xref d2 @ [0]\<rparr>))"
    using s5(1,2) startObject_facts(1) write_pdf_calls assms(2) by fastforce
  with startThenWrite_facts(1) [OF s5(3)] have "tracked l0 r (writer d4)" by simp
  with startObject_facts(1) [OF s5(5), of l0 r] show ?thesis by simp
next
  case (s6 d1 d2 d4 cd d6 e)
  have "tracked l0 r (writer (d2\<lparr>xref := xref d2 @ [0]\<rparr>))"
    using s6(1,2) startObject_facts(1) write_pdf_calls assms(2) by fastforce
  with startThenWrite_facts(1) [OF s6(3)] have "tracked l0 r (writer d4)" by simp
  with startObject_facts(1) [OF s6(5), of l0 r] have "tracked l0 r (writer d6)" by simp
  with write_pdf_calls [OF s6(6)] show ?thesis by simp
next
  case (s7 d1 d2 d4 cd d6 d7)
  have "tracked l0 r (writer (d2\<lparr>xref := xref d2 @ [0]\<rparr>))"
    using s7(1,2) startObject_facts(1) write_pdf_calls assms(2) by fastforce
  with startThenWrite_facts(1) [OF s7(3)] have "tracked l0 r (writer d4)" by simp
  with startObject_facts(1) [OF s7(5), of l0 r] have "tracked l0 r (writer d6)" by simp
  with write_pdf_calls [OF s7(6)] have "tracked l0 r (writer d7)" by simp
  with finishXref_facts(1) [OF s7(7)] show ?thesis by simp
qed

lemma finish_status:
  assumes "finish md5 now d = (st, d')" "st \<noteq> Panicked"
  shows "st = ioStatus (werr (writer d'))"
  using assms(1)
proof (cases rule: finish_stages)
  case (s1 d1)
  then show ?thesis using startObject_facts(3) assms(2) by blast
next
  case (s2 d1 e)
  then show ?thesis using write_pdf_werr [OF s2(2)] by simp
next
  case (s3 d1 d2)
  then show ?thesis using startThenWrite_facts(3) [OF s3(3)] assms(2) by simp
next
  case (s4 d1 d2 d4)
  then show ?thesis using assms(2) by simp
next
  case (s5 d1 d2 d4 cd)
  then show ?thesis using startObject_facts(3) [OF s5(5)] assms(2) by simp
next
  case (s6 d1 d2 d4 cd d6 e)
  then show ?thesis using write_pdf_werr [OF s6(6)] by simp
next
  case (s7 d1 d2 d4 cd d6 d7)
  then show ?thesis using finishXref_facts(2) [OF s7(7)] assms(2) by simp
qed

text \<open>under the invariant of WriteTo, finish panics only in pdfFormatDate\<close>

lemma finish_started:
  assumes fin: "finish md5 now d = (st, d')" and g: "started d" "xref d ! 1 = 0"
    and st: "st = Panicked"
  shows "werr (writer d') = None \<and> resolveDate now d = Panics"
proof -
  have fr1: "fresh d (pagesId d)"
    using g by (auto simp: started_def fresh_def)
  from fin show ?thesis
  proof (cases rule: finish_stages)
    case (s1 d1)
    with st startObject_facts(4) [OF s1(1)] fr1 show ?thesis by simp
  next
    case (s2 d1 e)
    with st show ?thesis by simp
  next
    case (s3 d1 d2)
    have "fresh (d2\<lparr>xref := xref d2 @ [0]\<rparr>) (length (xref d2))"
      using startObject_facts(3) [OF s3(1)] write_pdf_frame [OF s3(2)] g
      by (auto simp: fresh_def started_def nth_append_len)
    with startThenWrite_facts(4) [OF s3(3)] st show ?thesis by simp
  next
    case (s4 d1 d2 d4)
    have "werr (writer d4) = None"
      using startThenWrite_facts(3) [OF s4(3)] by simp
    moreover have "sameMeta d d4"
      using startObject_facts(3) [OF s4(1)] write_pdf_frame [OF s4(2)]
        startThenWrite_facts(3) [OF s4(3)]
      by (auto simp: sameMeta_def)
    ultimately show ?thesis
      using s4(4,6) by (auto simp: resolveDate_def sameMeta_def split: if_splits)
  next
    case (s5 d1 d2 d4 cd)
    have "0 < length (xref d4)"
      using startObject_facts(3) [OF s5(1)] write_pdf_frame [OF s5(2)]
        startThenWrite_facts(3) [OF s5(3)]
      by simp
    then have "fresh (d4\<lparr>creationDate := cd, xref := xref d4 @ [0]\<rparr>) (length (xref d4))"
      by (simp add: fresh_def)
    with startObject_facts(4) [OF s5(5)] st show ?thesis by simp
  next
    case (s6 d1 d2 d4 cd d6 e)
    with st show ?thesis by simp
  next
    case (s7 d1 d2 d4 cd d6 d7)
    note f1 = startObject_facts(3) [OF s7(1), simplified]
    note f2 = write_pdf_frame [OF s7(2)]
    note f4 = startThenWrite_facts(3) [OF s7(3), simplified]
    note f6 = startObject_facts(3) [OF s7(5), simplified]
    note f7 = write_pdf_frame [OF s7(6)]
    have p: "pos d \<le> pos d1" "pos d1 \<le> pos d2" "pos d2 \<le> pos d4"
      using startObject_facts(2) [OF s7(1)] write_pdf_pos [OF s7(2)]
        startThenWrite_facts(2) [OF s7(3)] by simp_all
    have x7: "xref d7 = ((xref d)[pagesId d := pos d]) @ [pos d2, pos d4]"
      using f1 f2 f4 f6 f7 by simp
    have "\<forall>j. 1 \<le> j \<and> j < length (xref d7) \<longrightarrow> 0 < xref d7 ! j"
    proof (intro allI impI)
      fix j assume j: "1 \<le> j \<and> j < length (xref d7)"
      show "0 < xref d7 ! j"
      proof (cases "j < length (xref d)")
        case True
        with j g p x7 show ?thesis
          by (cases "j = 1") (auto simp: started_def nth_append nth_list_update)
      next
        case False
        with j x7 have "j = length (xref d) \<or> j = Suc (length (xref d))" by auto
        with x7 g p show ?thesis
          by (auto simp: started_def nth_append)
      qed
    qed
    with finishXref_facts(3) [OF s7(7)] st show ?thesis by simp
  qed
qed

lemma tracked_new: "tracked (calls s) (script s = []) (newWriter s)"
  unfolding tracked_def callsFrom_def newWriter_def by (intro conjI exI [of _ 0]) simp_all

lemma pdfHeader_ne [simp]: "pdfHeader v \<noteq> []"
  by (simp add: pdfHeader_def)

lemma pdfHeader_len: "0 < length (concat (pdfHeader v))"
  by (simp add: pdfHeader_def)

lemma newPdfDoc_facts:
  assumes "newPdfDoc s nfo = (err, pd)"
  shows "tracked (calls s) (script s = []) (writer pd)" and "werr (writer pd) = err"
    and "xref pd = [0, 0]" and "pagesId pd = 1" and "pages pd = []"
    and "err = None \<Longrightarrow> 0 < pos pd"
    and "err = None \<Longrightarrow>
           emitted (writer pd) = received s @ concat (pdfHeader (infoGet nfo ''version'' dfltPdfVersion))
           \<and> pos pd = length (concat (pdfHeader (infoGet nfo ''version'' dfltPdfVersion)))"
    and "title pd = infoGet nfo ''title'' [] \<and> creationDate pd = infoGet nfo ''creationDate'' pdfUseNow"
proof -
  let ?d0 = "\<lparr>writer = newWriter s, pos = 0, xref = [0, 0], pages = [], pagesId = 1,
               version = infoGet nfo ''version'' dfltPdfVersion,
               title = infoGet nfo ''title'' [],
               author = infoGet nfo ''author'' [],
               subject = infoGet nfo ''subject'' [],
               producer = infoGet nfo ''producer'' (packageName @ ''-'' @ scpdfVersion),
               creator = infoGet nfo ''creator'' packageName,
               creationDate = infoGet nfo ''creationDate'' pdfUseNow\<rparr>"
  from assms have w: "write_pdf ?d0 (pdfHeader (infoGet nfo ''version'' dfltPdfVersion)) = (err, pd)"
    by (simp add: newPdfDoc_def newId_def Let_def)
  note fr = write_pdf_frame [OF w]
  show "tracked (calls s) (script s = []) (writer pd)"
    using write_pdf_calls [OF w, of "calls s" "script s = []"] tracked_new by simp
  show "werr (writer pd) = err"
    using write_pdf_werr [OF w] by simp
  show "xref pd = [0, 0]" "pagesId pd = 1" "pages pd = []"
    using fr by (simp_all add: sameMeta_def)
  show "title pd = infoGet nfo ''title'' [] \<and> creationDate pd = infoGet nfo ''creationDate'' pdfUseNow"
    using fr by (simp add: sameMeta_def)
  show "err = None \<Longrightarrow> 0 < pos pd"
    using write_pdf_ok(2) [of ?d0 "pdfHeader (infoGet nfo ''version'' dfltPdfVersion)" pd] w
      pdfHeader_len [of "infoGet nfo ''version'' dfltPdfVersion"]
    by (simp del: length_greater_0_conv length_concat)
  show "err = None \<Longrightarrow>
           emitted (writer pd) = received s @ concat (pdfHeader (infoGet nfo ''version'' dfltPdfVersion))
           \<and> pos pd = length (concat (pdfHeader (infoGet nfo ''version'' dfltPdfVersion)))"
    using write_pdf_ok [of ?d0 _ pd] w by (auto simp: emitted_def newWriter_def)
qed

lemma generate_facts:
  assumes "generate zlib md5 now d s = (st, pd)"
  shows "tracked (calls s) (script s = []) (writer pd)"
    and "st \<noteq> Panicked \<Longrightarrow> st = ioStatus (werr (writer pd))"
    and "st = Panicked \<Longrightarrow> werr (writer pd) = None \<and> dateOf now (info d) = Panics"
proof -
  obtain e0 pd0 where n0: "newPdfDoc s (info d) = (e0, pd0)"
    by (cases "newPdfDoc s (info d)") auto
  note f0 = newPdfDoc_facts [OF n0]
  show "tracked (calls s) (script s = []) (writer pd)"
    and "st \<noteq> Panicked \<Longrightarrow> st = ioStatus (werr (writer pd))"
    and "st = Panicked \<Longrightarrow> werr (writer pd) = None \<and> dateOf now (info d) = Panics"
  proof (atomize (full), cases e0)
    case (Some e)
    with assms n0 have "st = Failure (ErrIO e)" "pd = pd0"
      by (auto simp: generate_def)
    with f0(1,2) Some
    show "tracked (calls s) (script s = []) (writer pd) \<and>
      (st \<noteq> Panicked \<longrightarrow> st = ioStatus (werr (writer pd))) \<and>
      (st = Panicked \<longrightarrow> werr (writer pd) = None \<and> dateOf now (info d) = Panics)" by simp
  next
    case None
    have g0: "started pd0" "xref pd0 ! 1 = 0"
      using f0(3,4,6) None by (simp_all add: started_def)
    let ?r = "length (xref pd0)"
    obtain s2 pd2 where a2: "startThenWrite (pd0\<lparr>xref := xref pd0 @ [0]\<rparr>) ?r []
          [''<</ProcSet[/PDF]>>'' @ [NL], pdfNewLine (''<</ProcSet[/PDF]>>'' @ [NL]), ''endobj'' @ [NL]] = (s2, pd2)"
      by (cases "startThenWrite (pd0\<lparr>xref := xref pd0 @ [0]\<rparr>) ?r []
          [''<</ProcSet[/PDF]>>'' @ [NL], pdfNewLine (''<</ProcSet[/PDF]>>'' @ [NL]), ''endobj'' @ [NL]]") auto
    have ne: "[''<</ProcSet[/PDF]>>'' @ [NL], pdfNewLine (''<</ProcSet[/PDF]>>'' @ [NL]), ''endobj'' @ [NL]] \<noteq> []"
      by simp
    note g2 = started_step [OF g0 a2 ne]
    have c2: "tracked (calls s) (script s = []) (writer pd2)"
      using startThenWrite_facts(1) [OF a2 ne, of "calls s" "script s = []"] f0(1) by simp
    obtain s3 pd3 where a3: "pagesLoop zlib d ?r (dpages d) pd2 = (s3, pd3)"
      by (cases "pagesLoop zlib d ?r (dpages d) pd2") auto
    note f3 = pagesLoop_facts [OF a3 g2(2,3), of "calls s" "script s = []"]
    show "tracked (calls s) (script s = []) (writer pd) \<and>
      (st \<noteq> Panicked \<longrightarrow> st = ioStatus (werr (writer pd))) \<and>
      (st = Panicked \<longrightarrow> werr (writer pd) = None \<and> dateOf now (info d) = Panics)"
    proof (cases "s3 = Success")
      case False
      with assms n0 None a2 a3 g2(1) have "st = s3" "pd = pd3"
        by (auto simp: generate_def newId_def addObject_shape split: status.splits)
      with f3 c2 False show ?thesis by simp
    next
      case True
      with assms n0 None a2 a3 g2(1) have fin: "finish md5 now pd3 = (st, pd)"
        by (auto simp: generate_def newId_def addObject_shape split: status.splits)
      from f3 c2 have c3: "tracked (calls s) (script s = []) (writer pd3)" and g3: "started pd3" "xref pd3 ! 1 = 0"
        by simp_all
      have "sameMeta pd0 pd3"
        using f3 g2(5) by (auto intro: sameMeta_trans)
      with f0(8) have "creationDate pd3 = infoGet (info d) ''creationDate'' pdfUseNow"
        by (simp add: sameMeta_def)
      then have "resolveDate now pd3 = dateOf now (info d)"
        by (simp add: resolveDate_def dateOf_def)
      with finish_calls [OF fin c3] finish_status [OF fin] finish_started [OF fin g3]
      show ?thesis by auto
    qed
  qed
qed



lemma objAt_append: "objAt doc off i \<Longrightarrow> objAt (doc @ rest) off i"
proof -
  assume a: "objAt doc off i"
  have ne: "objHeader i \<noteq> []" by (simp add: objHeader_def)
  from a have "length (take (length (objHeader i)) (drop off doc)) = length (objHeader i)"
    by (simp add: objAt_def)
  then have "length (objHeader i) \<le> length (drop off doc)"
    by simp
  with a show ?thesis
    unfolding objAt_def by (cases "off \<le> length doc") auto
qed

lemma objAt_inside: "objAt doc off i \<Longrightarrow> off < length doc"
proof -
  assume a: "objAt doc off i"
  have ne: "objHeader i \<noteq> []" by (simp add: objHeader_def)
  from a have "take (length (objHeader i)) (drop off doc) \<noteq> []"
    using ne by (simp add: objAt_def)
  then show ?thesis by (cases "off < length doc") auto
qed

lemma objAt_here: "objAt (doc @ objHeader i @ rest) (length doc) i"
  by (simp add: objAt_def)

lemma located_step:
  assumes loc: "located doc d"
    and sw: "startThenWrite d i ps cs = (Success, d')" and cs: "cs \<noteq> []"
  shows "located (doc @ objHeader i @ concat cs) d'"
proof -
  note f = startThenWrite_facts [OF sw cs]
  from f(3) have x: "xref d' = (xref d)[i := pos d]" and fr: "fresh d i" by simp_all
  from f(5) have p: "pos d' = pos d + length (objHeader i @ concat cs)" by simp
  from loc have pd: "pos d = length doc" by (simp add: located_def)
  show ?thesis
    unfolding located_def
  proof (intro conjI allI impI)
    show "pos d' = length (doc @ objHeader i @ concat cs)"
      using p pd by simp
  next
    fix j assume j: "0 < j \<and> j < length (xref d') \<and> 0 < xref d' ! j"
    show "objAt (doc @ objHeader i @ concat cs) (xref d' ! j) j"
    proof (cases "j = i")
      case True
      with x fr pd show ?thesis
        by (simp add: fresh_def objAt_here)
    next
      case False
      with j x have "0 < j \<and> j < length (xref d) \<and> 0 < xref d ! j" "xref d' ! j = xref d ! j"
        by simp_all
      with loc show ?thesis
        by (simp add: located_def objAt_append)
    qed
  qed
qed

lemma located_start:
  assumes loc: "located doc d" and so: "startObject d i = (Success, d')"
  shows "located (doc @ objHeader i) d'"
proof -
  note f = startObject_facts(3,5) [OF so, simplified]
  from loc have pd: "pos d = length doc" by (simp add: located_def)
  show ?thesis
    unfolding located_def
  proof (intro conjI allI impI)
    show "pos d' = length (doc @ objHeader i)" using f pd by simp
  next
    fix j assume j: "0 < j \<and> j < length (xref d') \<and> 0 < xref d' ! j"
    show "objAt (doc @ objHeader i) (xref d' ! j) j"
    proof (cases "j = i")
      case True
      with f pd objAt_here [of doc j "[]"] show ?thesis by (simp add: fresh_def)
    next
      case False
      with j f loc show ?thesis by (simp add: located_def objAt_append)
    qed
  qed
qed

lemma located_newId: "located doc d \<Longrightarrow> located doc (d\<lparr>xref := xref d @ [0]\<rparr>)"
  by (auto simp: located_def nth_append)

lemma located_write:
  assumes "located doc d" "write_pdf d cs = (None, d')"
  shows "located (doc @ concat cs) d'"
  using assms write_pdf_ok(2) [OF assms(2)] write_pdf_frame [OF assms(2)]
  by (auto simp: located_def objAt_append)

lemma infoChunks_meta:
  "sameMeta d d' \<Longrightarrow> infoChunks (d'\<lparr>creationDate := cd\<rparr>) = infoChunks (d\<lparr>creationDate := cd\<rparr>)"
  by (simp add: infoChunks_def sameMeta_def)

lemma trailerChunks_meta:
  "sameMeta d d' \<Longrightarrow> trailerChunks md5 (d'\<lparr>creationDate := cd\<rparr>) l c i x
     = trailerChunks md5 (d\<lparr>creationDate := cd\<rparr>) l c i x"
  by (simp add: trailerChunks_def sameMeta_def)

text \<open>what a successful finish writes\<close>

lemma finish_success:
  assumes fin: "finish md5 now d = (Success, d')" and loc: "located doc d"
    and em: "emitted (writer d) = base @ doc"
  shows "\<exists>cd. resolveDate now d = Returns cd
          \<and> fresh d (pagesId d)
          \<and> received (wr (writer d')) = base @ doc @ pagesObj d @ catalogObj d @ infoObj cd d
                @ xrefTable (finalXref d) @ trailerOf md5 cd d
          \<and> pos d' = length (doc @ pagesObj d @ catalogObj d @ infoObj cd d
                @ xrefTable (finalXref d) @ trailerOf md5 cd d)
          \<and> xrefPosOf cd d = length (doc @ pagesObj d @ catalogObj d @ infoObj cd d)
          \<and> (\<forall>j. 0 < j \<and> j < length (finalXref d) \<longrightarrow>
                0 < finalXref d ! j
                \<and> objAt (doc @ pagesObj d @ catalogObj d @ infoObj cd d) (finalXref d ! j) j)"
  using fin
proof (cases rule: finish_stages)
  case (s7 d1 d2 d4 cd d6 d7)
  note f1 = startObject_facts(3,5) [OF s7(1), simplified]
  note f2 = write_pdf_frame [OF s7(2)] write_pdf_ok [OF s7(2)]
  note f4 = startThenWrite_facts(3,5) [OF s7(3), simplified]
  note f6 = startObject_facts(3,5) [OF s7(5), simplified]
  note f7 = write_pdf_frame [OF s7(6)] write_pdf_ok [OF s7(6)]
  note f8 = finishXref_facts(5) [OF s7(7), simplified]
  from loc have pd: "pos d = length doc" by (simp add: located_def)
  have m1: "sameMeta d d1" and m2: "sameMeta d d2" and m4: "sameMeta d d4"
    using f1 f2 f4 by (auto intro: sameMeta_trans)
  have pg: "pages d1 = pages d" "pagesId d1 = pagesId d" "pagesId d2 = pagesId d"
    using f1 m1 m2 by (simp_all add: sameMeta_def)
  have x2: "xref d2 = (xref d)[pagesId d := pos d]"
    using f1 f2 by simp
  have e2: "emitted (writer d2) = base @ doc @ pagesObj d" and p2: "pos d2 = pos d + length (pagesObj d)"
    using f1 f2 em pg by (simp_all add: pagesObj_def)
  have x4: "xref d4 = (xref d)[pagesId d := pos d] @ [pos d + length (pagesObj d)]"
    using f4 x2 p2 by simp
  have e4: "emitted (writer d4) = base @ doc @ pagesObj d @ catalogObj d"
    and p4: "pos d4 = pos d + length (pagesObj d) + length (catalogObj d)"
    using f4 e2 p2 x2 pg by (simp_all add: catalogObj_def)
  have rd: "resolveDate now d = Returns cd"
    using s7(4) m4 by (auto simp: resolveDate_def sameMeta_def split: if_splits)
  have m6: "sameMeta (d\<lparr>creationDate := cd\<rparr>) d6"
    using f6 m4 by (simp add: sameMeta_def)
  have d6cd: "d6\<lparr>creationDate := cd\<rparr> = d6"
    using f6 by (simp add: sameMeta_def)
  have ic: "infoChunks d6 = infoChunks (d\<lparr>creationDate := cd\<rparr>)"
    using infoChunks_meta [OF m6, of cd] d6cd by simp
  have x7: "xref d7 = finalXref d"
    using f6 f7 x4 p4 by (simp add: finalXref_def)
  have e7: "emitted (writer d7) = base @ doc @ pagesObj d @ catalogObj d @ infoObj cd d"
    and p7: "pos d7 = xrefPosOf cd d"
    using f6 f7 e4 p4 x4 ic by (simp_all add: infoObj_def xrefPosOf_def)
  have m7: "sameMeta (d\<lparr>creationDate := cd\<rparr>) d7"
    using m6 f7 by (auto intro: sameMeta_trans)
  have d7cd: "d7\<lparr>creationDate := cd\<rparr> = d7"
    using m7 by (simp add: sameMeta_def)
  have tr: "concat (trailerChunks md5 d7 (length (xref d7)) (length (xref d2)) (length (xref d4)) (pos d7))
      = trailerOf md5 cd d"
    using trailerChunks_meta [OF m7, of md5 cd] d7cd x7 x2 x4 p7
    by (simp add: trailerOf_def finalXref_def)
  have fr: "fresh d (pagesId d)" using f1 by simp
  have xp: "xrefPosOf cd d = length (doc @ pagesObj d @ catalogObj d @ infoObj cd d)"
    using pd by (simp add: xrefPosOf_def)
  have rec: "received (wr (writer d')) = base @ doc @ pagesObj d @ catalogObj d @ infoObj cd d
                @ xrefTable (finalXref d) @ trailerOf md5 cd d"
    using f8 e7 x7 tr by (simp add: xrefTable_def)
  have pos': "pos d' = length (doc @ pagesObj d @ catalogObj d @ infoObj cd d
                @ xrefTable (finalXref d) @ trailerOf md5 cd d)"
    using f8 p7 xp x7 tr by (simp add: xrefTable_def)
  have l1: "located (doc @ pagesObj d) d2"
    using located_write [OF located_start [OF loc s7(1)] s7(2)] pg by (simp add: pagesObj_def)
  have l4: "located (doc @ pagesObj d @ catalogObj d) d4"
    using located_step [OF located_newId [OF l1] s7(3) catalogChunks_ne] x2 pg
    by (simp add: catalogObj_def)
  have "located (doc @ pagesObj d @ catalogObj d) (d4\<lparr>creationDate := cd, xref := xref d4 @ [0]\<rparr>)"
    using located_newId [OF l4] by (simp add: located_def)
  from located_start [OF this s7(5)] x4
  have l6: "located (doc @ pagesObj d @ catalogObj d @ objHeader (Suc (length (xref d)))) d6"
    by simp
  have l7: "located (doc @ pagesObj d @ catalogObj d @ infoObj cd d) d7"
    using located_write [OF l6 s7(6)] ic by (simp add: infoObj_def)
  have all: "\<forall>j. 0 < j \<and> j < length (finalXref d) \<longrightarrow>
                0 < finalXref d ! j
                \<and> objAt (doc @ pagesObj d @ catalogObj d @ infoObj cd d) (finalXref d ! j) j"
    using f8 l7 x7 by (auto simp: located_def)
  from rd fr rec pos' xp all show ?thesis by blast
qed (use fin in auto)

lemma startObject_sticky:
  "werr (writer d) = Some e \<Longrightarrow> startObject d i = (st, d') \<Longrightarrow> st \<noteq> Success"
proof -
  assume e: "werr (writer d) = Some e" and so: "startObject d i = (st, d')"
  from so show ?thesis
  proof (cases rule: startObject_cases)
    case panic
    then show ?thesis by simp
  next
    case (wrote err)
    have "write_pdf (d\<lparr>xref := (xref d)[i := pos d]\<rparr>) [objHeader i]
            = (Some e, d\<lparr>xref := (xref d)[i := pos d]\<rparr>)"
      using e by (intro write_pdf_sticky) simp_all
    with wrote show ?thesis by auto
  qed
qed

lemma startThenWrite_sticky:
  "werr (writer d) = Some e \<Longrightarrow> startThenWrite d i ps cs = (st, d') \<Longrightarrow> st \<noteq> Success"
  using startObject_sticky [of d e i]
  by (auto simp: startThenWrite_def split: prod.splits status.splits)

lemma finish_sticky:
  "werr (writer d) = Some e \<Longrightarrow> finish md5 now d = (st, d') \<Longrightarrow> st \<noteq> Success"
  using startObject_sticky [of d e "pagesId d"]
  by (auto simp: finish_def split: prod.splits status.splits)

lemma pagesLoop_sticky:
  "werr (writer pd) = Some e \<Longrightarrow> pagesLoop zlib d res ps pd = (st, pd') \<Longrightarrow>
     st \<noteq> Success \<or> pd' = pd"
  using startThenWrite_sticky [of "pd\<lparr>xref := xref pd @ [0]\<rparr>" e "length (xref pd)" "[]"]
  by (cases ps) (auto simp: newId_def addStream_shape split: prod.splits status.splits)

lemma streamChunks_ne [simp]: "streamChunks x \<noteq> []"
  by (simp add: streamChunks_def)

lemma pageChunks_ne [simp]: "pageChunks a b c x \<noteq> []"
  by (simp add: pageChunks_def)

lemma resourcesChunks_ne [simp]: "resourcesChunks \<noteq> []"
  by (simp add: resourcesChunks_def)

lemma pagesLoop_success:
  "pagesLoop zlib doc res ps pd = (Success, pd') \<Longrightarrow> located body pd \<Longrightarrow>
   emitted (writer pd) = base @ body \<Longrightarrow> pagesId pd = 1 \<Longrightarrow>
     located (body @ pagesBytes zlib doc res (length (xref pd)) ps) pd'
     \<and> emitted (writer pd') = base @ body @ pagesBytes zlib doc res (length (xref pd)) ps
     \<and> length (xref pd') = length (xref pd) + 2 * length ps
     \<and> pages pd' = pages pd @ pageIds (length (xref pd)) ps"
proof (induction ps arbitrary: pd body)
  case Nil
  then show ?case by simp
next
  case (Cons p ps)
  let ?c = "length (xref pd)"
  let ?sc = "streamChunks (streamData zlib (pageContent doc p))"
  obtain s1 pd2 where a1: "startThenWrite (pd\<lparr>xref := xref pd @ [0]\<rparr>) ?c [] ?sc = (s1, pd2)"
    by (cases "startThenWrite (pd\<lparr>xref := xref pd @ [0]\<rparr>) ?c [] ?sc") auto
  with Cons.prems(1) have s1: "s1 = Success"
    by (auto simp: newId_def addStream_shape split: status.splits)
  note f1 = startThenWrite_facts(3,5) [OF a1 [unfolded s1] streamChunks_ne, simplified]
  let ?i = "length (xref pd2)"
  let ?pc = "pageChunks ?c res (pagesId (pd2\<lparr>xref := xref pd2 @ [0]\<rparr>)) (mediaBox doc)"
  obtain s2 pd4 where a2: "startThenWrite (pd2\<lparr>xref := xref pd2 @ [0]\<rparr>) ?i [?i] ?pc = (s2, pd4)"
    by (cases "startThenWrite (pd2\<lparr>xref := xref pd2 @ [0]\<rparr>) ?i [?i] ?pc") auto
  with Cons.prems(1) a1 s1 have s2: "s2 = Success"
    and rec: "pagesLoop zlib doc res ps pd4 = (Success, pd')"
    by (auto simp: newId_def addStream_shape addPage_shape split: status.splits)
  note f2 = startThenWrite_facts(3,5) [OF a2 [unfolded s2] pageChunks_ne, simplified]
  have i: "?i = Suc ?c" using f1 by simp
  have pid2: "pagesId pd2 = 1" "pagesId pd4 = 1"
    using f1 f2 Cons.prems(4) by (simp_all add: sameMeta_def)
  let ?b1 = "body @ objHeader ?c @ concat ?sc"
  let ?b2 = "?b1 @ objHeader (Suc ?c) @ concat (pageChunks ?c res 1 (mediaBox doc))"
  have l1: "located ?b1 pd2"
    using located_step [OF located_newId [OF Cons.prems(2)] a1 [unfolded s1] streamChunks_ne] .
  have l2: "located ?b2 pd4"
    using located_step [OF located_newId [OF l1] a2 [unfolded s2] pageChunks_ne] i pid2 by simp
  have e2: "emitted (writer pd4) = base @ ?b2"
    using f1 f2 Cons.prems(3) i pid2 by simp
  note ih = Cons.IH [OF rec l2 e2 pid2(2)]
  have x4: "length (xref pd4) = ?c + 2" using f1 f2 by simp
  have pg4: "pages pd4 = pages pd @ [Suc ?c]" using f1 f2 i by simp
  from ih x4 pg4 show ?case by simp
qed

lemma generate_success:
  assumes gen: "generate zlib md5 now d s = (Success, pd')"
  shows "\<exists>pd cd. located (bodyBytes zlib d) pd \<and> pagesId pd = 1
           \<and> length (xref pd) = 3 + 2 * length (dpages d)
           \<and> pages pd = pageIds 3 (dpages d)
           \<and> title pd = infoGet (info d) ''title'' []
           \<and> dateOf now (info d) = Returns cd
           \<and> received (wr (writer pd')) = received s @ bodyBytes zlib d @ pagesObj pd
                @ catalogObj pd @ infoObj cd pd @ xrefTable (finalXref pd) @ trailerOf md5 cd pd
           \<and> pos pd' = length (bodyBytes zlib d @ pagesObj pd @ catalogObj pd @ infoObj cd pd
                @ xrefTable (finalXref pd) @ trailerOf md5 cd pd)
           \<and> xrefPosOf cd pd = length (bodyBytes zlib d @ pagesObj pd @ catalogObj pd @ infoObj cd pd)
           \<and> (\<forall>j. 0 < j \<and> j < length (finalXref pd) \<longrightarrow>
                0 < finalXref pd ! j
                \<and> objAt (bodyBytes zlib d @ pagesObj pd @ catalogObj pd @ infoObj cd pd)
                     (finalXref pd ! j) j)"
proof -
  let ?v = "infoGet (info d) ''version'' dfltPdfVersion"
  obtain e0 pd0 where n0: "newPdfDoc s (info d) = (e0, pd0)"
    by (cases "newPdfDoc s (info d)") auto
  with gen have e0: "e0 = None"
    by (cases e0) (auto simp: generate_def)
  note f0 = newPdfDoc_facts [OF n0 [unfolded e0], simplified]
  let ?h = "concat (pdfHeader ?v)"
  have l0: "located ?h pd0"
    using f0 by (simp add: located_def nth_Cons')
  have g0: "started pd0" "xref pd0 ! 1 = 0"
    using f0 by (simp_all add: started_def)
  obtain s2 pd2 where a2: "startThenWrite (pd0\<lparr>xref := xref pd0 @ [0]\<rparr>) (length (xref pd0)) []
          resourcesChunks = (s2, pd2)"
    by (cases "startThenWrite (pd0\<lparr>xref := xref pd0 @ [0]\<rparr>) (length (xref pd0)) [] resourcesChunks") auto
  note g2 = started_step [OF g0 a2 resourcesChunks_ne]
  obtain s3 pd3 where a3: "pagesLoop zlib d (length (xref pd0)) (dpages d) pd2 = (s3, pd3)"
    by (cases "pagesLoop zlib d (length (xref pd0)) (dpages d) pd2") auto
  from gen n0 e0 a2 a3 g2(1) have s3: "s3 = Success" and fin: "finish md5 now pd3 = (Success, pd')"
    by (auto simp: generate_def newId_def addObject_shape resourcesChunks_def split: status.splits)
  have s2: "s2 = Success"
  proof (rule ccontr)
    assume ns: "s2 \<noteq> Success"
    with startThenWrite_facts(3) [OF a2 resourcesChunks_ne] g2(1)
    obtain e where e: "werr (writer pd2) = Some e"
      by (cases "werr (writer pd2)") auto
    from pagesLoop_sticky [OF e a3] s3 have "pd3 = pd2" by simp
    with finish_sticky [OF _ fin] e show False by simp
  qed
  note f2 = startThenWrite_facts(3,5) [OF a2 [unfolded s2] resourcesChunks_ne, simplified]
  let ?b2 = "?h @ objHeader 2 @ concat resourcesChunks"
  have l2: "located ?b2 pd2"
    using located_step [OF located_newId [OF l0] a2 [unfolded s2] resourcesChunks_ne] f0
    by (simp add: numeral_2_eq_2)
  have e2: "emitted (writer pd2) = received s @ ?b2"
    using f2 f0 by (simp add: numeral_2_eq_2)
  have m2: "sameMeta pd0 pd2" and x2: "length (xref pd2) = 3" and pg2: "pages pd2 = []"
    using f2 f0 by simp_all
  have pid2: "pagesId pd2 = 1" using m2 f0 by (simp add: sameMeta_def)
  have lx0: "length (xref pd0) = 2" using f0 by simp
  note ps = pagesLoop_success [OF a3 [unfolded s3] l2 e2 pid2, unfolded lx0 x2 pg2 append_Nil]
  have bb: "?b2 @ pagesBytes zlib d 2 3 (dpages d) = bodyBytes zlib d"
    by (simp add: bodyBytes_def)
  have l3: "located (bodyBytes zlib d) pd3"
    and e3: "emitted (writer pd3) = received s @ bodyBytes zlib d"
    and x3: "length (xref pd3) = 3 + 2 * length (dpages d)"
    and pg3: "pages pd3 = pageIds 3 (dpages d)"
    using ps unfolding bb [symmetric] by simp_all
  have m3: "sameMeta pd0 pd3"
    using pagesLoop_facts [OF a3 g2(2,3), of "[]" False] m2 by (auto intro: sameMeta_trans)
  from finish_success [OF fin l3 e3] obtain cd where cd: "resolveDate now pd3 = Returns cd"
    and rest: "received (wr (writer pd')) = received s @ bodyBytes zlib d @ pagesObj pd3
                @ catalogObj pd3 @ infoObj cd pd3 @ xrefTable (finalXref pd3) @ trailerOf md5 cd pd3"
      "pos pd' = length (bodyBytes zlib d @ pagesObj pd3 @ catalogObj pd3 @ infoObj cd pd3
                @ xrefTable (finalXref pd3) @ trailerOf md5 cd pd3)"
      "xrefPosOf cd pd3 = length (bodyBytes zlib d @ pagesObj pd3 @ catalogObj pd3 @ infoObj cd pd3)"
      "\<forall>j. 0 < j \<and> j < length (finalXref pd3) \<longrightarrow>
                0 < finalXref pd3 ! j
                \<and> objAt (bodyBytes zlib d @ pagesObj pd3 @ catalogObj pd3 @ infoObj cd pd3)
                     (finalXref pd3 ! j) j"
    by blast
  have t3: "title pd3 = infoGet (info d) ''title'' []" "pagesId pd3 = 1"
      "creationDate pd3 = infoGet (info d) ''creationDate'' pdfUseNow"
    using m3 f0 by (simp_all add: sameMeta_def)
  have dt: "dateOf now (info d) = Returns cd"
    using cd t3 by (auto simp: dateOf_def resolveDate_def split: if_splits)
  show ?thesis
    by (intro exI [of _ pd3] exI [of _ cd] conjI l3 t3 x3 pg3 dt rest)
qed

lemma digit_decimal: "n < 10 \<Longrightarrow> isDigitChar (digit n) \<and> digitVal (digit n) = n"
proof -
  have "\<forall>m<10. isDigitChar (digit m) \<and> digitVal (digit m) = m"
    by (simp add: eval_nat_numeral All_less_Suc digit_def isDigitChar_def digitVal_def)
  then show "n < 10 \<Longrightarrow> isDigitChar (digit n) \<and> digitVal (digit n) = n"
    by blast
qed

lemma radix_length: "2 \<le> b \<Longrightarrow> 0 < k \<Longrightarrow> n < b ^ k \<Longrightarrow> length (radix b n) \<le> k"
proof (induction b n arbitrary: k rule: radix.induct)
  case (1 b n)
  show ?case
  proof (cases "n < b \<or> b < 2")
    case True
    with "1.prems" show ?thesis by (simp add: radix.simps [of b n])
  next
    case False
    with "1.prems" obtain k' where k: "k = Suc k'" "0 < k'"
      by (cases k; cases "k - 1") (auto simp: not_less)
    from "1.prems" k have "n div b < b ^ k'"
      by (simp add: less_mult_imp_div_less mult.commute)
    from "1.IH" [OF False "1.prems"(1) k(2) this] False k show ?thesis
      by (simp add: radix.simps [of b n])
  qed
qed

lemma radix_length_pos: "0 < length (radix b n)"
  by (subst radix.simps) simp

lemma decimal_digits: "\<forall>c\<in>set (decimal n). isDigitChar c"
  unfolding decimal_def
proof (induction "10::nat" n rule: radix.induct)
  case (1 n)
  show ?case
  proof (cases "n < 10")
    case True
    then show ?thesis by (simp add: radix.simps [of 10 n] digit_decimal)
  next
    case False
    with "1.hyps" have "\<forall>c\<in>set (radix 10 (n div 10)). isDigitChar c" by simp
    with False show ?thesis
      by (simp add: radix.simps [of 10 n] digit_decimal)
  qed
qed

lemma natOfDecimal_snoc: "natOfDecimal (s @ [c]) = 10 * natOfDecimal s + digitVal c"
  by (simp add: natOfDecimal_def)

lemma natOfDecimal_decimal: "natOfDecimal (decimal n) = n"
  unfolding decimal_def
proof (induction "10::nat" n rule: radix.induct)
  case (1 n)
  show ?case
  proof (cases "n < 10")
    case True
    then show ?thesis
      by (simp add: radix.simps [of 10 n] natOfDecimal_def digit_decimal)
  next
    case False
    with "1.hyps" have "natOfDecimal (radix 10 (n div 10)) = n div 10" by simp
    with False show ?thesis
      by (simp add: radix.simps [of 10 n] natOfDecimal_snoc digit_decimal)
  qed
qed

lemma natOfDecimal_zeros: "natOfDecimal (replicate k (CHR ''0'') @ s) = natOfDecimal s"
proof -
  have "foldl (\<lambda>a c. 10 * a + digitVal c) 0 (replicate k (CHR ''0'')) = 0"
    by (induction k) (simp_all add: digitVal_def)
  then show ?thesis by (simp add: natOfDecimal_def)
qed

lemma padZero_facts:
  shows "natOfDecimal (padZero w (decimal n)) = n"
    and "\<forall>c\<in>set (padZero w (decimal n)). isDigitChar c"
    and "0 < w \<Longrightarrow> n < 10 ^ w \<Longrightarrow> length (padZero w (decimal n)) = w"
proof -
  show "natOfDecimal (padZero w (decimal n)) = n"
    by (simp add: padZero_def natOfDecimal_zeros natOfDecimal_decimal)
  show "\<forall>c\<in>set (padZero w (decimal n)). isDigitChar c"
    using decimal_digits [of n] by (auto simp: padZero_def isDigitChar_def)
  show "length (padZero w (decimal n)) = w" if "0 < w" "n < 10 ^ w"
    using radix_length [of 10 w n] that by (simp add: padZero_def decimal_def)
qed

lemma hexBytes_length: "length (hexBytes bs) = 2 * length bs"
proof (induction bs)
  case Nil
  then show ?case by (simp add: hexBytes_def)
next
  case (Cons c bs)
  have "(of_char c :: nat) mod 256 < 256"
    by simp
  then have "(of_char c :: nat) < 256"
    by (simp only: of_char_mod_256)
  then have "(of_char c :: nat) < 16 ^ 2"
    by simp
  then have "length (radix 16 (of_char c)) \<le> 2"
    by (intro radix_length) simp_all
  then have "length (padZero 2 (radix 16 (of_char c))) = 2"
    by (simp add: padZero_def)
  with Cons show ?case by (simp add: hexBytes_def)
qed

lemma radix_base: "n < b \<or> b < 2 \<Longrightarrow> radix b n = [digit n]"
  by (simp add: radix.simps [of b n])

lemma radix_rec: "\<not> (n < b \<or> b < 2) \<Longrightarrow> radix b n = radix b (n div b) @ [digit (n mod b)]"
  by (simp add: radix.simps [of b n])

lemma replicate_small:
  "replicate 4 c = [c, c, c, c]" "replicate 5 c = [c, c, c, c, c]"
  "replicate 9 c = [c, c, c, c, c, c, c, c, c]"
  "replicate 3 c = [c, c, c]" "replicate 2 c = [c, c]" "replicate 1 c = [c]"
  by (simp_all add: eval_nat_numeral)

text \<open>the form of a cross-reference entry\<close>

lemma xrefEntry_form:
  "xrefEntry off = padZero 10 (decimal off) @ '' 00000 n '' @ [NL]"
  by (simp add: xrefEntry_def padZero_def [of 5] decimal_def radix_base digit_def replicate_small)

lemma xrefHead_form:
  "concat (xrefHead lmt) = ''xref'' @ [NL] @ ''0 '' @ decimal lmt @ [NL] @ ''0000000000 65535 f '' @ [NL]"
proof -
  have "decimal 0 = ''0''" "decimal 65535 = ''65535''"
    by (simp_all add: decimal_def radix_base radix_rec digit_def)
  then show ?thesis
    by (simp add: xrefHead_def padZero_def replicate_small)
qed

lemma autoPageSize_simps:
  "dpages (autoPageSize d) = dpages d" "frozen (autoPageSize d) = frozen d"
  "info (autoPageSize d) = info d"
  by (simp_all add: autoPageSize_def)

lemma WriteTo_early:
  assumes "frozen d" "dpages d = []"
  shows "WriteTo zlib md5 now d s = (0, Failure ErrFrozen, autoPageSize d, s)"
proof -
  have "AddPage (autoPageSize d) (Some dfltMuffler) = (Some ErrFrozen, autoPageSize d)"
    using assms by (simp add: AddPage_def AddPageScaled_def autoPageSize_simps)
  then show ?thesis
    using assms by (simp add: WriteTo_def Let_def autoPageSize_simps)
qed

lemma WriteTo_gen:
  assumes "\<not> (frozen d \<and> dpages d = [])"
  shows "WriteTo zlib md5 now d s =
           (case generate zlib md5 now (prepared d) s of
              (st, pd) \<Rightarrow> (pos pd, st, prepared d, wr (writer pd)))"
proof (cases "dpages d = []")
  case True
  with assms have nf: "\<not> frozen d" by simp
  have "AddPage (autoPageSize d) (Some dfltMuffler)
          = (None, (autoPageSize d)\<lparr>dpages := [\<lparr>muffler = dfltMuffler, scale = fl (1 * stdScale)\<rparr>]\<rparr>)"
    using nf True by (simp add: AddPage_def AddPageScaled_def autoPageSize_simps)
  then show ?thesis
    using True by (simp add: WriteTo_def prepared_def Let_def autoPageSize_simps)
next
  case False
  then show ?thesis
    by (simp add: WriteTo_def prepared_def Let_def autoPageSize_simps)
qed

lemma WriteTo_cases:
  assumes "WriteTo zlib md5 now d s = (n, st, d', s')"
  obtains (early) "frozen d" "dpages d = []" "st = Failure ErrFrozen" "n = 0" "s' = s"
    | (gen) pd where "\<not> (frozen d \<and> dpages d = [])" "d' = prepared d"
        "generate zlib md5 now d' s = (st, pd)" "n = pos pd" "s' = wr (writer pd)"
proof (cases "frozen d \<and> dpages d = []")
  case True
  with assms WriteTo_early [of d zlib md5 now s] have "st = Failure ErrFrozen" "n = 0" "s' = s"
    by simp_all
  with True early show ?thesis by simp
next
  case False
  obtain sg pd where g: "generate zlib md5 now (prepared d) s = (sg, pd)"
    by (cases "generate zlib md5 now (prepared d) s") auto
  with False assms WriteTo_gen [of d zlib md5 now s]
  have "d' = prepared d" "st = sg" "n = pos pd" "s' = wr (writer pd)"
    by simp_all
  with False g gen show ?thesis by simp
qed

lemma prepared_facts:
  "info (prepared d) = info d" "dpages (prepared d) \<noteq> []" "frozen (prepared d)"
  "dpages d \<noteq> [] \<Longrightarrow> dpages (prepared d) = dpages d"
  "dpages d = [] \<Longrightarrow> dpages (prepared d) = [\<lparr>muffler = dfltMuffler, scale = fl (1 * stdScale)\<rparr>]"
  "width d = 0 \<and> height d = 0 \<Longrightarrow> width (prepared d) = dfltWidth \<and> height (prepared d) = dfltHeight"
  "\<not> (width d = 0 \<and> height d = 0) \<Longrightarrow> width (prepared d) = width d \<and> height (prepared d) = height d"
  by (auto simp: prepared_def Let_def autoPageSize_def)

text \<open>with a sink that never fails, WriteTo succeeds\<close>

lemma WriteTo_succeeds:
  assumes "script s = []" "\<not> (frozen d \<and> dpages d = [])" "dateOf now (info d) \<noteq> Panics"
  shows "\<exists>n s'. WriteTo zlib md5 now d s = (n, Success, prepared d, s')"
proof -
  obtain n st d' s' where w: "WriteTo zlib md5 now d s = (n, st, d', s')"
    using prod_cases4 by blast
  from w show ?thesis
  proof (cases rule: WriteTo_cases)
    case early
    with assms show ?thesis by simp
  next
    case (gen pd)
    note f = generate_facts [OF gen(3)]
    from f(1) assms(1) have "werr (writer pd) = None"
      by (simp add: tracked_def)
    moreover from f(3) assms(3) gen(2) have "st \<noteq> Panicked"
      by (auto simp: prepared_facts)
    ultimately have "st = Success" using f(2) by simp
    with w gen show ?thesis by simp
  qed
qed

lemma WriteTo_success:
  assumes "WriteTo zlib md5 now d s = (n, Success, d', s')"
  shows "\<exists>pd cd. d' = prepared d
           \<and> located (bodyBytes zlib d') pd \<and> pagesId pd = 1
           \<and> length (xref pd) = 3 + 2 * length (dpages d')
           \<and> pages pd = pageIds 3 (dpages d')
           \<and> title pd = infoGet (info d') ''title'' []
           \<and> dateOf now (info d') = Returns cd
           \<and> received s' = received s @ bodyBytes zlib d' @ pagesObj pd
                @ catalogObj pd @ infoObj cd pd @ xrefTable (finalXref pd) @ trailerOf md5 cd pd
           \<and> n = length (bodyBytes zlib d' @ pagesObj pd @ catalogObj pd @ infoObj cd pd
                @ xrefTable (finalXref pd) @ trailerOf md5 cd pd)
           \<and> xrefPosOf cd pd = length (bodyBytes zlib d' @ pagesObj pd @ catalogObj pd @ infoObj cd pd)
           \<and> (\<forall>j. 0 < j \<and> j < length (finalXref pd) \<longrightarrow>
                0 < finalXref pd ! j
                \<and> objAt (bodyBytes zlib d' @ pagesObj pd @ catalogObj pd @ infoObj cd pd)
                     (finalXref pd ! j) j)"
  using assms
proof (cases rule: WriteTo_cases)
  case early
  then show ?thesis by simp
next
  case (gen pd')
  from generate_success [OF gen(3)] gen(2,4,5) show ?thesis
    by (elim exE conjE) (intro exI conjI; simp)
qed

lemma noon_formatted:
  "pdfFormatDate noon = Returns (''D:20181130120000+09'' @ [QUOTE] @ ''00'' @ [QUOTE])"
  unfolding noon_def by code_simp

lemma noon_date: "dateOf noon Map.empty \<noteq> Panics"
  by (simp add: dateOf_def infoGet_def noon_formatted)

lemma WriteTo_emptyDoc:
  "\<exists>n s'. WriteTo zlib md5 noon emptyDoc quiet = (n, Success, prepared emptyDoc, s')"
  by (rule WriteTo_succeeds) (simp_all add: quiet_def emptyDoc_def noon_date)

lemma finalXref_length: "length (finalXref pd) = length (xref pd) + 2"
  by (simp add: finalXref_def)

lemma addStream_succeeds:
  assumes "tracked l0 True (writer d)" "fresh d i"
  shows "\<exists>d'. addStream zlib d i dat = (Success, d')"
proof -
  obtain st d' where a: "startThenWrite d i [] (streamChunks (streamData zlib dat)) = (st, d')"
    by (cases "startThenWrite d i [] (streamChunks (streamData zlib dat))") auto
  have ne: "streamChunks (streamData zlib dat) \<noteq> []"
    by (simp add: streamChunks_def)
  note f = startThenWrite_facts [OF a ne]
  from f(4) assms(2) have np: "st \<noteq> Panicked" by blast
  from f(1) [OF assms(1)] have "werr (writer d') = None" by (simp add: tracked_def)
  with f(3) [OF np] have "st = Success" by simp
  with a show ?thesis by (simp add: addStream_shape)
qed

lemma roundHalfEven_eq:
  assumes "of_int m - 1 / 2 < q" "q < of_int m + 1 / 2"
  shows "roundHalfEven q = m"
proof (cases "of_int m \<le> q")
  case True
  with assms have f: "\<lfloor>q\<rfloor> = m" by (simp add: floor_eq_iff)
  with assms show ?thesis by (simp add: roundHalfEven_def Let_def)
next
  case False
  with assms have f: "\<lfloor>q\<rfloor> = m - 1" by (simp add: floor_eq_iff)
  with assms False show ?thesis by (simp add: roundHalfEven_def Let_def)
qed

lemma bitLength_small:
  "bitLength 595 = 10" "bitLength 833 = 10" "bitLength 1 = 1" "bitLength (Suc 0) = 1"
  by (simp_all add: bitLength.simps)

lemma fl_01: "fl 0 = 0" "fl 1 = 1"
proof -
  show "fl 0 = 0" by (simp add: fl_def)
  have "roundHalfEven 4503599627370496 = 4503599627370496"
    by (rule roundHalfEven_eq) simp_all
  then show "fl 1 = 1"
    by (simp add: fl_def binade_def bitLength_small pow2_def Let_def)
qed

lemma default_size:
  "dfltWidth = 5236099468337991 / 2 ^ 43" "dfltHeight = 7330539255673187 / 2 ^ 43"
proof -
  have f: "\<lfloor>75600 / 127 :: rat\<rfloor> = 595" "\<lfloor>105840 / 127 :: rat\<rfloor> = 833"
    by (simp_all add: floor_eq_iff)
  have b: "binade (75600 / 127) = 9" "binade (105840 / 127) = 9"
    by (simp_all add: binade_def f bitLength_small)
  have r: "roundHalfEven (664984632478924800 / 127) = 5236099468337991"
    "roundHalfEven (930978485470494720 / 127) = 7330539255673187"
    by (rule roundHalfEven_eq; simp)+
  have q: "210 * 72 / (254 / 10) = (75600 / 127 :: rat)" "294 * 72 / (254 / 10) = (105840 / 127 :: rat)"
    by simp_all
  show "dfltWidth = 5236099468337991 / 2 ^ 43"
    unfolding dfltWidth_def q by (simp add: fl_def b pow2_def r)
  show "dfltHeight = 7330539255673187 / 2 ^ 43"
    unfolding dfltHeight_def q by (simp add: fl_def b pow2_def r)
qed

lemma round_width: "roundHalfEven (dfltWidth * 1000) = 595276"
  unfolding default_size by (rule roundHalfEven_eq) simp_all

lemma round_height: "roundHalfEven (dfltHeight * 1000) = 833386"
  unfolding default_size by (rule roundHalfEven_eq) simp_all

lemma decimal_small:
  "decimal 0 = ''0''" "decimal 1 = ''1''" "decimal (Suc 0) = ''1''" "decimal 276 = ''276''" "decimal 386 = ''386''"
  "decimal 595 = ''595''" "decimal 833 = ''833''" "decimal 4 = ''4''"
  "decimal 2 = ''2''" "decimal 3 = ''3''" "decimal 5 = ''5''" "decimal 6 = ''6''"
  by (simp_all add: decimal_def radix_rec radix_base digit_def)

lemma default_size_strings:
  "realStr dfltWidth = ''595.276''" "realStr dfltHeight = ''833.386''"
proof -
  have p: "0 < dfltWidth" "0 < dfltHeight" by (simp_all add: default_size)
  show "realStr dfltWidth = ''595.276''"
    using p(1) by (simp add: realStr_def fmtFixed_def round_width Let_def decimal_small padZero_def trimRight_def)
  show "realStr dfltHeight = ''833.386''"
    using p(2) by (simp add: realStr_def fmtFixed_def round_height Let_def decimal_small padZero_def trimRight_def)
qed

lemma realStr_01: "realStr 0 = ''0''" "realStr 1 = ''1''"
  by (simp_all add: realStr_def fmtFixed_def roundHalfEven_def Let_def decimal_small decimal_def
        radix_rec radix_base digit_def padZero_def trimRight_def replicate_small)

lemma upper_RG: "char_of (82::nat) = CHR ''R''" "char_of (71::nat) = CHR ''G''"
  by code_simp+

lemma red_code:
  "pdfCode (makeColorInfo dfltMuffler) False = ''1 0 0 RG''"
  "pdfCode (makeColorInfo dfltMuffler) True = ''1 0 0 rg''"
  by (simp_all add: pdfCode_def dfltMuffler_def makeParams_def fl_01 realStr_01 toUpper_def upper_RG)

lemma one_kid: "kidsArray [4] = ''[4 0 R]''"
  by (simp add: kidsArray_def idString_def decimal_small)

lemma small_ids: "idString 1 = ''1 0 R''" "idString 2 = ''2 0 R''" "idString 3 = ''3 0 R''"
  by (simp_all add: idString_def decimal_small)

lemma digit_hex: "n < 16 \<Longrightarrow> isUpperHex (digit n) \<and> hexVal (digit n) = n"
proof -
  have "\<forall>m<16. isUpperHex (digit m) \<and> hexVal (digit m) = m"
    by (simp add: eval_nat_numeral All_less_Suc digit_def isUpperHex_def hexVal_def)
  then show "n < 16 \<Longrightarrow> isUpperHex (digit n) \<and> hexVal (digit n) = n"
    by blast
qed

lemma hex_of_byte:
  assumes "n < 256"
  shows "padZero 2 (radix 16 n) = [digit (n div 16), digit (n mod 16)]"
proof (cases "n < 16")
  case True
  then show ?thesis
    by (simp add: radix_base padZero_def replicate_small digit_def)
next
  case False
  with assms have "n div 16 < 16" by simp
  with False show ?thesis
    by (simp add: radix_rec radix_base padZero_def)
qed

lemma nibbles: "(n::nat) < 256 \<Longrightarrow> n div 16 < 16" "(n::nat) mod 16 < 16"
  by simp_all

lemma byte_below_256: "(of_char c :: nat) < 256"
proof -
  have "(of_char c :: nat) mod 256 < 256" by simp
  then show ?thesis by (simp only: of_char_mod_256)
qed

lemma bytesOfHex_hexBytes: "bytesOfHex (hexBytes bs) = bs"
proof (induction bs)
  case Nil
  then show ?case by (simp add: hexBytes_def)
next
  case (Cons c bs)
  let ?n = "of_char c :: nat"
  have n: "?n < 256" by (rule byte_below_256)
  have d: "?n div 16 < 16" "?n mod 16 < 16"
    using nibbles(1) [OF n] nibbles(2) [of ?n] by blast+
  have "char_of (hexVal (digit (?n div 16)) * 16 + hexVal (digit (?n mod 16))) = c"
    using digit_hex [OF d(1)] digit_hex [OF d(2)] by (simp add: mult.commute)
  with Cons show ?case
    by (simp add: hexBytes_def hex_of_byte [OF n])
qed

lemma hexBytes_digits: "list_all isUpperHex (hexBytes bs)"
proof (induction bs)
  case Nil
  then show ?case by (simp add: hexBytes_def)
next
  case (Cons c bs)
  let ?n = "of_char c :: nat"
  have n: "?n < 256" by (rule byte_below_256)
  have d: "?n div 16 < 16" "?n mod 16 < 16"
    using nibbles(1) [OF n] nibbles(2) [of ?n] by blast+
  with Cons digit_hex [OF d(1)] digit_hex [OF d(2)] show ?case
    by (simp add: hexBytes_def hex_of_byte [OF n])
qed

lemma hex_of_date: "hexBytes ''D:20181130120000'' = ''443A3230313831313330313230303030''"
  by (simp add: hexBytes_def padZero_def radix_rec radix_base digit_def)











lemma pdfNewLine_snoc:
  "pdfNewLine (xs @ [NL]) = []" "c \<noteq> NL \<Longrightarrow> pdfNewLine (xs @ [c]) = [NL]"
  by (simp_all add: pdfNewLine_def nth_append)

lemma resources_bytes:
  "concat resourcesChunks = ''<</ProcSet[/PDF]>>'' @ [NL] @ ''endobj'' @ [NL]"
proof -
  have "pdfNewLine (''<</ProcSet[/PDF]>>'' @ [NL]) = []" by (rule pdfNewLine_snoc(1))
  then show ?thesis by (simp add: resourcesChunks_def)
qed

lemma small_ids_Suc: "idString (Suc 0) = ''1 0 R''"
  using small_ids(1) by simp

lemma catalog_bytes:
  "concat (catalogChunks 1) = ''<</Type/Catalog/Pages 1 0 R>>'' @ [NL] @ ''endobj'' @ [NL]"
proof -
  have "pdfNewLine (''<</Type/Catalog/Pages 1 0 R>'' @ [CHR ''>'']) = [NL]"
    by (rule pdfNewLine_snoc(2)) simp
  then show ?thesis by (simp add: catalogChunks_def small_ids small_ids_Suc)
qed

lemma page_bytes:
  "concat (pageChunks 3 2 1 mb) = ''<</Type/Page/Contents 3 0 R/Resources 2 0 R/Parent 1 0 R'' @ [NL]
      @ mb @ ''>>'' @ [NL] @ ''endobj'' @ [NL]"
  by (simp add: pageChunks_def small_ids small_ids_Suc)

lemma one_page_bytes:
  "pagesBytes zlib d 2 3 [p] = objHeader 3 @ concat (streamChunks (streamData zlib (pageContent d p)))
     @ objHeader 4 @ concat (pageChunks 3 2 1 (mediaBox d))"
  by simp

lemma muffler_in_art:
  "\<exists>art. essentialCode dfltMuffler = art @ ''1 0 0 RG 1 0 0 rg'' @ [NL] @ eoMufflerCode @ [NL]"
proof -
  have h: "println [pdfCode (makeColorInfo dfltMuffler) False, pdfCode (makeColorInfo dfltMuffler) True]
          = ''1 0 0 RG 1 0 0 rg'' @ [NL]"
    unfolding red_code by (simp add: println_def)
  have m: "println [eoMufflerCode] = eoMufflerCode @ [NL]"
    by (simp add: println_def)
  let ?art = "println [''0 G 0 g 1 j 1 J 0.01389 w''] @ println [eoBodyCode] @ eoEyesCode
        @ println [eoMouthCode] @ println [eoHatCode] @ println [eoArmsCode] @ eoButtonsCode @ eoSnowCode"
  have "essentialCode dfltMuffler = ?art @ ''1 0 0 RG 1 0 0 rg'' @ [NL] @ eoMufflerCode @ [NL]"
    unfolding essentialCode_def Let_def h m by (simp only: append_assoc)
  then show ?thesis by (intro exI [of _ ?art])
qed

lemma fl_eval:
  "q \<noteq> 0 \<Longrightarrow> binade q = b \<Longrightarrow> roundHalfEven (q / pow2 (b - 52)) = m \<Longrightarrow>
     fl q = of_int m * pow2 (b - 52)"
  by (simp add: fl_def Let_def)

lemma binade_below_one:
  "\<bar>q\<bar> < 1 \<Longrightarrow> \<lceil>1 / \<bar>q\<bar>\<rceil> = 2 \<Longrightarrow> binade q = - 1"
  by (simp add: binade_def bitLength_small)

lemma std_scale: "stdScale = 5404319552844595 / 2 ^ 53" "fl stdScale = stdScale"
proof -
  have b1: "binade (6 / 10) = - 1"
    by (rule binade_below_one) (simp_all add: ceiling_eq_iff)
  have r1: "roundHalfEven (6 / 10 / pow2 (- 1 - 52)) = 5404319552844595"
    by (rule roundHalfEven_eq) (simp_all add: pow2_def)
  have "fl (6 / 10) = of_int 5404319552844595 * pow2 (- 1 - 52)"
    by (rule fl_eval [OF _ b1 r1]) simp
  then show s: "stdScale = 5404319552844595 / 2 ^ 53"
    by (simp add: stdScale_def pow2_def)
  have b2: "binade (5404319552844595 / 2 ^ 53) = - 1"
    by (rule binade_below_one) (simp_all add: ceiling_eq_iff)
  have r2: "roundHalfEven (5404319552844595 / 2 ^ 53 / pow2 (- 1 - 52)) = 5404319552844595"
    by (rule roundHalfEven_eq) (simp_all add: pow2_def)
  have "fl (5404319552844595 / 2 ^ 53) = of_int 5404319552844595 * pow2 (- 1 - 52)"
    by (rule fl_eval [OF _ b2 r2]) simp
  then show "fl stdScale = stdScale"
    unfolding s by (simp add: pow2_def)
qed

lemma realStr_100: "realStr 100 = ''100''" "realStr 200 = ''200''"
proof -
  have r: "roundHalfEven 100000 = 100000" "roundHalfEven 200000 = 200000"
    by (rule roundHalfEven_eq; simp)+
  have d: "decimal 100 = ''100''" "decimal 200 = ''200''"
    by (simp_all add: decimal_def radix_rec radix_base digit_def)
  show "realStr 100 = ''100''" "realStr 200 = ''200''"
    by (simp_all add: realStr_def fmtFixed_def r Let_def d decimal_small padZero_def trimRight_def
          replicate_small)
qed

lemma ascii_chars:
  "char_of (97::nat) = CHR ''a''" "char_of (98::nat) = CHR ''b''" "char_of (92::nat) = BSL"
  by code_simp+

lemma runes_ab: "runes [CHR ''a'', BSL, CHR ''b''] = [97, 92, 98]"
  by (simp add: runes.simps decodeRune_def)

lemma pdfStr_a_backslash_b:
  "pdfStr [CHR ''a'', BSL, CHR ''b''] = [CHR ''('', CHR ''a'', BSL, CHR ''b'', CHR '')'']"
  by (simp add: pdfStr_def runes_ab ascii_chars)

lemma refs_Cons: "l \<noteq> [] \<Longrightarrow> refs (i # l) = idString i @ [SP] @ refs l"
  by (cases l) (simp_all add: refs_def)

lemma refs_single: "refs [i] = idString i"
  by (simp add: refs_def)

lemma joinNl_Cons: "ls \<noteq> [] \<Longrightarrow> joinNl (x # ls) = x @ [NL] @ joinNl ls"
  by (cases ls) simp_all

lemma lineOk_Cons:
  "l \<noteq> [] \<Longrightarrow> lineOk cur (i # l) = (cur + length (idString i) \<le> 70 \<and> lineOk (cur + length (idString i) + 1) l)"
  by (cases l) simp_all

lemma broken_Cons:
  "ls \<noteq> [] \<Longrightarrow> broken cur (l # ls) = (l \<noteq> [] \<and> lineOk cur l \<and> cur + length (refs l) > 70 \<and> broken 0 ls)"
  by (cases ls) simp_all

lemma broken_first:
  "broken cur (l # ls) \<Longrightarrow> l \<noteq> [] \<and> lineOk cur l \<and> (ls \<noteq> [] \<longrightarrow> cur + length (refs l) > 70 \<and> broken 0 ls)"
  by (cases ls) simp_all

text \<open>the loop of the kids, from a buffer whose current line has \<open>length b - plt\<close> bytes\<close>

lemma kidsLoop_lines:
  "ps \<noteq> [] \<Longrightarrow> plt \<le> length b \<Longrightarrow>
     \<exists>lines sep. lines \<noteq> [] \<and> concat lines = ps
        \<and> kidsLoop ps b plt = b @ joinNl (map refs lines) @ [sep]
        \<and> broken (length b - plt) lines"
proof (induction ps arbitrary: b plt)
  case Nil
  then show ?case by simp
next
  case (Cons i ps)
  let ?b1 = "b @ idString i"
  show ?case
  proof (cases "ps = []")
    case True
    have "kidsLoop (i # ps) b plt = b @ joinNl (map refs [[i]]) @ [if length ?b1 > plt + 70 then NL else SP]"
      using True by (simp add: Let_def refs_single)
    moreover have "concat [[i]] = i # ps" "broken (length b - plt) [[i]]" "[[i]] \<noteq> []"
      using True by simp_all
    ultimately show ?thesis by blast
  next
    case False
    show ?thesis
    proof (cases "length ?b1 > plt + 70")
      case brk: True
      from Cons.IH [OF False, of "length (?b1 @ [NL])" "?b1 @ [NL]"]
      obtain lines sep where l: "lines \<noteq> []" "concat lines = ps"
        "kidsLoop ps (?b1 @ [NL]) (length (?b1 @ [NL])) = (?b1 @ [NL]) @ joinNl (map refs lines) @ [sep]"
        "broken 0 lines"
        by auto
      have k: "kidsLoop (i # ps) b plt = b @ joinNl (map refs ([i] # lines)) @ [sep]"
        using brk l(1,3) by (simp add: Let_def joinNl_Cons refs_single)
      have br: "broken (length b - plt) ([i] # lines)"
        using brk l(1,4) Cons.prems(2) by (simp add: broken_Cons refs_single)
      from k br l(2) show ?thesis
        by (intro exI [of _ "[i] # lines"] exI [of _ sep]) simp
    next
      case nobrk: False
      have p: "plt \<le> length (?b1 @ [SP])" using Cons.prems(2) by simp
      from Cons.IH [OF False p]
      obtain lines sep where l: "lines \<noteq> []" "concat lines = ps"
        "kidsLoop ps (?b1 @ [SP]) plt = (?b1 @ [SP]) @ joinNl (map refs lines) @ [sep]"
        "broken (length (?b1 @ [SP]) - plt) lines"
        by auto
      from l(1) obtain l1 ls where ll: "lines = l1 # ls" by (cases lines) auto
      from broken_first [OF l(4) [unfolded ll]]
      have f: "l1 \<noteq> []" "lineOk (length (?b1 @ [SP]) - plt) l1"
        "ls \<noteq> [] \<longrightarrow> length (?b1 @ [SP]) - plt + length (refs l1) > 70 \<and> broken 0 ls"
        by simp_all
      have cur: "length (?b1 @ [SP]) - plt = (length b - plt) + length (idString i) + 1"
        using Cons.prems(2) by simp
      have k: "kidsLoop (i # ps) b plt = b @ joinNl (map refs ((i # l1) # ls)) @ [sep]"
      proof (cases "ls = []")
        case True
        with nobrk l(3) ll f(1) show ?thesis by (simp add: Let_def refs_Cons)
      next
        case False
        with nobrk l(3) ll f(1) show ?thesis by (simp add: Let_def refs_Cons joinNl_Cons)
      qed
      have ok: "lineOk (length b - plt) (i # l1)"
        using f(1,2) nobrk Cons.prems(2) unfolding cur by (simp add: lineOk_Cons)
      have br: "broken (length b - plt) ((i # l1) # ls)"
      proof (cases "ls = []")
        case True
        with ok show ?thesis by simp
      next
        case False
        with f(3) have "length (?b1 @ [SP]) - plt + length (refs l1) > 70" "broken 0 ls" by simp_all
        with False ok f(1) show ?thesis
          unfolding cur by (simp add: broken_Cons refs_Cons)
      qed
      from k br l(2) ll show ?thesis
        by (intro exI [of _ "(i # l1) # ls"] exI [of _ sep]) simp
    qed
  qed
qed

lemma idString_no_newline: "NL \<notin> set (idString i)"
proof -
  have "\<forall>c\<in>set (decimal i). c \<noteq> NL"
    using decimal_digits [of i] by (auto simp: isDigitChar_def)
  then show ?thesis by (auto simp: idString_def)
qed

lemma refs_no_newline: "NL \<notin> set (refs l)"
proof (induction l)
  case Nil
  then show ?case by (simp add: refs_def)
next
  case (Cons i l)
  then show ?case
    using idString_no_newline [of i] by (cases "l = []") (simp_all add: refs_Cons refs_single)
qed

lemma pageIds_map: "pageIds c ps = map (\<lambda>k. Suc c + 2 * k) [0..<length ps]"
proof (induction ps arbitrary: c)
  case Nil
  then show ?case by simp
next
  case (Cons p ps)
  have "map (\<lambda>k. Suc c + 2 * k) [0..<Suc (length ps)]
          = Suc c # map (\<lambda>k. Suc (c + 2) + 2 * k) [0..<length ps]"
    by (simp add: upt_conv_Cons map_Suc_upt [symmetric] del: upt_Suc)
  with Cons [of "c + 2"] show ?case by simp
qed

lemma kidsArray_lines:
  assumes "ps \<noteq> []"
  shows "\<exists>lines. concat lines = ps \<and> kidsArray ps = ''['' @ joinNl (map refs lines) @ '']''
           \<and> broken 1 lines"
proof -
  from kidsLoop_lines [OF assms, of 0 "''[''"]
  obtain lines sep where l: "concat lines = ps"
    "kidsLoop ps ''['' 0 = ''['' @ joinNl (map refs lines) @ [sep]" "broken 1 lines"
    by auto
  from l(2) have "kidsArray ps = ''['' @ joinNl (map refs lines) @ '']''"
    by (simp add: kidsArray_def Let_def)
  with l(1,3) show ?thesis by blast
qed

lemma manyKids_array:
  "kidsArray manyKids = ''[4 0 R 6 0 R 8 0 R 10 0 R 12 0 R 14 0 R 16 0 R 18 0 R 20 0 R 22 0 R 24 0 R'' @ [NL] @ ''26 0 R 28 0 R 30 0 R 32 0 R 34 0 R 36 0 R 38 0 R 40 0 R]''"
  by (simp add: manyKids_def kidsArray_def Let_def idString_def decimal_def radix_rec radix_base
        digit_def)

section \<open>Properties of the document operations\<close>

text \<open>
  C9. \<open>SetPageSize\<close> with a width or height that is zero or negative, and
  \<open>AddPageScaled\<close> with a scale that is zero or negative or with a nil muffler, return an
  error and leave the document as it was. Both operations work on the document alone:
  the sink and the object identifiers exist only inside \<open>WriteTo\<close>, so no byte is written
  and no identifier is allocated.
\<close>

theorem invalid_arguments_rejected:
  "(w \<le> 0 \<or> h \<le> 0 \<longrightarrow>
      SetPageSize d w h = (Some (if frozen d then ErrFrozen else ErrPageSize), d))
   \<and> (sc \<le> 0 \<or> m = None \<longrightarrow>
      (\<exists>e. AddPageScaled d m sc = (Some e, d)))"
  by (auto simp: SetPageSize_def AddPageScaled_def split: option.splits)

theorem invalid_arguments_rejected_witness:
  "((-1 :: rat) \<le> 0 \<or> (842 :: rat) \<le> 0)
   \<and> SetPageSize emptyDoc (-1) 842 = (Some ErrPageSize, emptyDoc)
   \<and> ((0 :: rat) \<le> 0 \<or> Some dfltMuffler = None)
   \<and> (\<exists>e. AddPageScaled emptyDoc (Some dfltMuffler) 0 = (Some e, emptyDoc))"
  using invalid_arguments_rejected [of "-1" 842 emptyDoc 0 "Some dfltMuffler"]
  by (simp add: emptyDoc_def)

text \<open>
  C10. After \<open>WriteTo\<close>, whatever its result, the document is frozen: \<open>SetPageSize\<close>,
  \<open>AddPageScaled\<close>, \<open>AddPage\<close> and \<open>SetDocInfo\<close> return the error "document is frozen"
  and leave the document, with its size, pages and information, as it was.
\<close>

theorem frozen_after_WriteTo:
  assumes "WriteTo zlib md5 now d s = (n, st, d', s')"
  shows "SetPageSize d' w h = (Some ErrFrozen, d')
         \<and> AddPageScaled d' m sc = (Some ErrFrozen, d')
         \<and> AddPage d' m = (Some ErrFrozen, d')
         \<and> SetDocInfo d' i = (Some ErrFrozen, d')"
proof -
  have "frozen d'"
    using assms
    by (auto simp: WriteTo_def Let_def AddPage_def AddPageScaled_def
             split: if_splits prod.splits option.splits)
  then show ?thesis
    by (simp add: SetPageSize_def AddPageScaled_def AddPage_def SetDocInfo_def)
qed

theorem frozen_after_WriteTo_witness:
  "\<exists>n st d' s'.
     WriteTo (\<lambda>x. x) (\<lambda>x. []) \<lparr>year = 2018, month = 8, day = 8, hour = 12, minute = 0,
        second = 0, nsec = 0, zoneOffset = 0\<rparr> emptyDoc \<lparr>received = [], script = [], calls = []\<rparr>
       = (n, st, d', s')
     \<and> SetPageSize d' 100 100 = (Some ErrFrozen, d')
     \<and> AddPageScaled d' (Some dfltMuffler) 1 = (Some ErrFrozen, d')
     \<and> AddPage d' (Some dfltMuffler) = (Some ErrFrozen, d')
     \<and> SetDocInfo d' Map.empty = (Some ErrFrozen, d')"
proof -
  obtain n st d' s' where
    "WriteTo (\<lambda>x. x) (\<lambda>x. []) \<lparr>year = 2018, month = 8, day = 8, hour = 12, minute = 0,
        second = 0, nsec = 0, zoneOffset = 0\<rparr> emptyDoc \<lparr>received = [], script = [], calls = []\<rparr>
       = (n, st, d', s')"
    using prod_cases4 by blast
  with frozen_after_WriteTo [OF this] show ?thesis
    by blast
qed

section \<open>The cross-reference table and the trailer\<close>

text \<open>
  C1. When \<open>WriteTo\<close> succeeds, the output is a body, then the cross-reference table, then
  the trailer, and the number of bytes that \<open>WriteTo\<close> returns is their length. The table
  is headed by the number of its entries, which is one plus the number of objects of the
  file (four and two for each page); entry 0 is the line of the free list with generation
  65535; the entry of each object \<open>i\<close> is the offset, padded with zeros to ten digits,
  the generation \<open>00000\<close> and \<open>n\<close>, and at that offset of the output, inside the body,
  the header line of object \<open>i\<close> begins. In an output of less than \<open>10 ^ 10\<close> bytes every
  offset has exactly ten digits and every entry twenty bytes.
\<close>

theorem xref_table_locates_objects:
  assumes "WriteTo zlib md5 now d s = (n, Success, d', s')"
  shows "\<exists>body offs rest.
           received s' = received s @ body
              @ ''xref'' @ [NL] @ ''0 '' @ decimal (length offs) @ [NL]
              @ ''0000000000 65535 f '' @ [NL]
              @ concat (map xrefEntry (tl offs)) @ rest
         \<and> length offs = 1 + (4 + 2 * length (dpages d'))
         \<and> (\<forall>i. 0 < i \<and> i < length offs \<longrightarrow>
               objAt body (offs ! i) i
             \<and> xrefEntry (offs ! i) = padZero 10 (decimal (offs ! i)) @ '' 00000 n '' @ [NL]
             \<and> natOfDecimal (padZero 10 (decimal (offs ! i))) = offs ! i
             \<and> (offs ! i < 10 ^ 10 \<longrightarrow> length (xrefEntry (offs ! i)) = 20))
         \<and> (\<forall>i. 0 < i \<and> i < length offs \<longrightarrow> 0 < offs ! i \<and> offs ! i < length body)
         \<and> n = length body + length (''xref'' @ [NL] @ ''0 '' @ decimal (length offs) @ [NL]
              @ ''0000000000 65535 f '' @ [NL] @ concat (map xrefEntry (tl offs)) @ rest)
         \<and> (n < 10 ^ 10 \<longrightarrow>
               (\<forall>i. 0 < i \<and> i < length offs \<longrightarrow>
                  length (padZero 10 (decimal (offs ! i))) = 10 \<and> length (xrefEntry (offs ! i)) = 20))"
proof -
  from WriteTo_success [OF assms] obtain pd cd where
    len: "length (xref pd) = 3 + 2 * length (dpages d')"
    and nl: "n = length (bodyBytes zlib d' @ pagesObj pd @ catalogObj pd @ infoObj cd pd
                @ xrefTable (finalXref pd) @ trailerOf md5 cd pd)"
    and rc: "received s' = received s @ bodyBytes zlib d' @ pagesObj pd
                @ catalogObj pd @ infoObj cd pd @ xrefTable (finalXref pd) @ trailerOf md5 cd pd"
    and at: "\<forall>j. 0 < j \<and> j < length (finalXref pd) \<longrightarrow>
                0 < finalXref pd ! j
                \<and> objAt (bodyBytes zlib d' @ pagesObj pd @ catalogObj pd @ infoObj cd pd)
                     (finalXref pd ! j) j"
    by blast
  let ?body = "bodyBytes zlib d' @ pagesObj pd @ catalogObj pd @ infoObj cd pd"
  let ?offs = "finalXref pd"
  have a: "received s' = received s @ ?body
              @ ''xref'' @ [NL] @ ''0 '' @ decimal (length ?offs) @ [NL]
              @ ''0000000000 65535 f '' @ [NL]
              @ concat (map xrefEntry (tl ?offs)) @ trailerOf md5 cd pd"
    using rc by (simp add: xrefTable_def xrefHead_form xrefEntries_def)
  have b: "length ?offs = 1 + (4 + 2 * length (dpages d'))"
    using len by (simp add: finalXref_length)
  have c: "\<forall>i. 0 < i \<and> i < length ?offs \<longrightarrow>
               objAt ?body (?offs ! i) i
             \<and> xrefEntry (?offs ! i) = padZero 10 (decimal (?offs ! i)) @ '' 00000 n '' @ [NL]
             \<and> natOfDecimal (padZero 10 (decimal (?offs ! i))) = ?offs ! i
             \<and> (?offs ! i < 10 ^ 10 \<longrightarrow> length (xrefEntry (?offs ! i)) = 20)"
  proof (intro allI impI conjI)
    fix i assume i: "0 < i \<and> i < length ?offs"
    with at show "objAt ?body (?offs ! i) i" by blast
    show "xrefEntry (?offs ! i) = padZero 10 (decimal (?offs ! i)) @ '' 00000 n '' @ [NL]"
      by (rule xrefEntry_form)
    show "natOfDecimal (padZero 10 (decimal (?offs ! i))) = ?offs ! i"
      by (rule padZero_facts(1))
  next
    fix i assume "?offs ! i < 10 ^ 10"
    then have "length (padZero 10 (decimal (?offs ! i))) = 10"
      using padZero_facts(3) [of 10 "?offs ! i"] by simp
    then show "length (xrefEntry (?offs ! i)) = 20"
      by (simp add: xrefEntry_form)
  qed
  have d: "\<forall>i. 0 < i \<and> i < length ?offs \<longrightarrow> 0 < ?offs ! i \<and> ?offs ! i < length ?body"
  proof (intro allI impI)
    fix i assume i: "0 < i \<and> i < length ?offs"
    with at have p: "0 < ?offs ! i" and o: "objAt ?body (?offs ! i) i" by blast+
    from objAt_inside [OF o] p show "0 < ?offs ! i \<and> ?offs ! i < length ?body" by simp
  qed
  have e: "n = length ?body + length (''xref'' @ [NL] @ ''0 '' @ decimal (length ?offs) @ [NL]
              @ ''0000000000 65535 f '' @ [NL] @ concat (map xrefEntry (tl ?offs)) @ trailerOf md5 cd pd)"
    using nl by (simp add: xrefTable_def xrefHead_form xrefEntries_def)
  have f: "n < 10 ^ 10 \<longrightarrow>
               (\<forall>i. 0 < i \<and> i < length ?offs \<longrightarrow>
                  length (padZero 10 (decimal (?offs ! i))) = 10 \<and> length (xrefEntry (?offs ! i)) = 20)"
  proof (intro allI impI)
    fix i assume n: "n < 10 ^ 10" and i: "0 < i \<and> i < length ?offs"
    from d i have "?offs ! i < length ?body" by blast
    also from e have "length ?body \<le> n" by simp
    finally have "?offs ! i < 10 ^ 10" using n by simp
    then have "length (padZero 10 (decimal (?offs ! i))) = 10"
      using padZero_facts(3) [of 10 "?offs ! i"] by simp
    then show "length (padZero 10 (decimal (?offs ! i))) = 10 \<and> length (xrefEntry (?offs ! i)) = 20"
      by (simp add: xrefEntry_form)
  qed
  from a b c d e f show ?thesis
    by (intro exI [of _ ?body] exI [of _ ?offs] exI [of _ "trailerOf md5 cd pd"] conjI)
qed

theorem xref_table_locates_objects_witness:
  "\<exists>n d' s' body offs rest.
     WriteTo (\<lambda>x. x) (\<lambda>x. []) noon emptyDoc quiet = (n, Success, d', s')
     \<and> received s' = body @ ''xref'' @ [NL] @ ''0 '' @ decimal (length offs) @ [NL]
              @ ''0000000000 65535 f '' @ [NL]
              @ concat (map xrefEntry (tl offs)) @ rest
     \<and> length offs = 7
     \<and> objAt body (offs ! 1) 1 \<and> objAt body (offs ! 6) 6
     \<and> natOfDecimal (padZero 10 (decimal (offs ! 6))) = offs ! 6
     \<and> 0 < offs ! 6 \<and> offs ! 6 < length body \<and> length body < n"
proof -
  obtain n s' where w: "WriteTo (\<lambda>x. x) (\<lambda>x. []) noon emptyDoc quiet = (n, Success, prepared emptyDoc, s')"
    using WriteTo_emptyDoc by blast
  have p: "length (dpages (prepared emptyDoc)) = 1"
    by (simp add: prepared_facts(5) emptyDoc_def)
  from xref_table_locates_objects [OF w] obtain body offs rest where
    a: "received s' = received quiet @ body
              @ ''xref'' @ [NL] @ ''0 '' @ decimal (length offs) @ [NL]
              @ ''0000000000 65535 f '' @ [NL]
              @ concat (map xrefEntry (tl offs)) @ rest"
    and b: "length offs = 1 + (4 + 2 * length (dpages (prepared emptyDoc)))"
    and c: "\<forall>i. 0 < i \<and> i < length offs \<longrightarrow>
               objAt body (offs ! i) i
             \<and> xrefEntry (offs ! i) = padZero 10 (decimal (offs ! i)) @ '' 00000 n '' @ [NL]
             \<and> natOfDecimal (padZero 10 (decimal (offs ! i))) = offs ! i
             \<and> (offs ! i < 10 ^ 10 \<longrightarrow> length (xrefEntry (offs ! i)) = 20)"
    and d: "\<forall>i. 0 < i \<and> i < length offs \<longrightarrow> 0 < offs ! i \<and> offs ! i < length body"
    and e: "n = length body + length (''xref'' @ [NL] @ ''0 '' @ decimal (length offs) @ [NL]
              @ ''0000000000 65535 f '' @ [NL] @ concat (map xrefEntry (tl offs)) @ rest)"
    by blast
  from b p have l: "length offs = 7" by simp
  from d l have d6: "0 < offs ! 6" "offs ! 6 < length body" by simp_all
  from e have e': "length body < n" by simp
  from c l have c1: "objAt body (offs ! 1) 1" by simp
  from c l have c6: "objAt body (offs ! 6) 6"
    "natOfDecimal (padZero 10 (decimal (offs ! 6))) = offs ! 6" by simp_all
  from a have a': "received s' = body
              @ ''xref'' @ [NL] @ ''0 '' @ decimal (length offs) @ [NL]
              @ ''0000000000 65535 f '' @ [NL]
              @ concat (map xrefEntry (tl offs)) @ rest"
    by (simp add: quiet_def)
  from w a' l c1 c6 d6 e' show ?thesis
    by (intro exI [of _ n] exI [of _ "prepared emptyDoc"] exI [of _ s'] exI [of _ body]
          exI [of _ offs] exI [of _ rest] conjI)
qed

text \<open>
  C6. When \<open>WriteTo\<close> succeeds, the output ends with the trailer, whose \<open>/ID\<close> array holds
  twice the same string: the digest, in hexadecimal with two upper-case digits for each
  byte, of the creation date, a slash, the title, a slash and the offset of the
  cross-reference table in decimal; reading the digits back in pairs gives the bytes of
  the digest. The creation date is that of the document information, or the formatted
  current time when none is given; the offset is the number of bytes before the table,
  the one written after \<open>startxref\<close>.
\<close>

theorem trailer_id_is_digest:
  assumes "WriteTo zlib md5 now d s = (n, Success, d', s')"
  shows "\<exists>body table cd sz root nfo h.
           received s' = received s @ body @ table
              @ ''trailer'' @ [NL]
              @ ''<</Size '' @ decimal sz @ ''/Root '' @ idString root @ ''/Info '' @ idString nfo @ [NL]
              @ ''/ID[<'' @ h @ ''><'' @ h @ ''>]>>'' @ [NL]
              @ ''startxref'' @ [NL] @ decimal (length body) @ [NL] @ ''%%EOF'' @ [NL]
         \<and> take 5 table = ''xref'' @ [NL]
         \<and> dateOf now (info d) = Returns cd
         \<and> h = hexBytes (md5 (cd @ ''/'' @ infoGet (info d) ''title'' [] @ ''/'' @ decimal (length body)))
         \<and> bytesOfHex h = md5 (cd @ ''/'' @ infoGet (info d) ''title'' [] @ ''/'' @ decimal (length body))
         \<and> list_all isUpperHex h
         \<and> length h = 2 * length (md5 (cd @ ''/'' @ infoGet (info d) ''title'' [] @ ''/'' @ decimal (length body)))"
proof -
  from WriteTo_success [OF assms] obtain pd cd where
    dp: "d' = prepared d"
    and ti: "title pd = infoGet (info d') ''title'' []"
    and dt: "dateOf now (info d') = Returns cd"
    and rc: "received s' = received s @ bodyBytes zlib d' @ pagesObj pd
                @ catalogObj pd @ infoObj cd pd @ xrefTable (finalXref pd) @ trailerOf md5 cd pd"
    and xp: "xrefPosOf cd pd = length (bodyBytes zlib d' @ pagesObj pd @ catalogObj pd @ infoObj cd pd)"
    by blast
  let ?body = "bodyBytes zlib d' @ pagesObj pd @ catalogObj pd @ infoObj cd pd"
  let ?m = "md5 (cd @ ''/'' @ infoGet (info d) ''title'' [] @ ''/'' @ decimal (length ?body))"
  have i: "info d' = info d" using dp by (simp add: prepared_facts)
  have a: "received s' = received s @ ?body @ xrefTable (finalXref pd)
              @ ''trailer'' @ [NL]
              @ ''<</Size '' @ decimal (length (xref pd) + 2) @ ''/Root '' @ idString (length (xref pd))
              @ ''/Info '' @ idString (Suc (length (xref pd))) @ [NL]
              @ ''/ID[<'' @ hexBytes ?m @ ''><'' @ hexBytes ?m @ ''>]>>'' @ [NL]
              @ ''startxref'' @ [NL] @ decimal (length ?body) @ [NL] @ ''%%EOF'' @ [NL]"
    using rc ti i xp [symmetric]
    by (simp add: trailerOf_def trailerChunks_def trailerId_def Let_def)
  have b: "take 5 (xrefTable (finalXref pd)) = ''xref'' @ [NL]"
    by (simp add: xrefTable_def xrefHead_form)
  have c: "dateOf now (info d) = Returns cd" using dt i by simp
  have e: "length (hexBytes ?m) = 2 * length ?m" by (rule hexBytes_length)
  have f: "bytesOfHex (hexBytes ?m) = ?m" by (rule bytesOfHex_hexBytes)
  have g: "list_all isUpperHex (hexBytes ?m)" by (rule hexBytes_digits)
  from a b c e f g show ?thesis
    by (intro exI [of _ ?body] exI [of _ "xrefTable (finalXref pd)"] exI [of _ cd]
          exI [of _ "length (xref pd) + 2"] exI [of _ "length (xref pd)"]
          exI [of _ "Suc (length (xref pd))"] exI [of _ "hexBytes ?m"] conjI refl)
qed

theorem trailer_id_is_digest_witness:
  "\<exists>n d' s' body table sz root nfo.
     WriteTo (\<lambda>x. x) (take 16) noon emptyDoc quiet = (n, Success, d', s')
     \<and> received s' = body @ table
              @ ''trailer'' @ [NL]
              @ ''<</Size '' @ decimal sz @ ''/Root '' @ idString root @ ''/Info '' @ idString nfo @ [NL]
              @ ''/ID[<443A3230313831313330313230303030><443A3230313831313330313230303030>]>>'' @ [NL]
              @ ''startxref'' @ [NL] @ decimal (length body) @ [NL] @ ''%%EOF'' @ [NL]
     \<and> bytesOfHex ''443A3230313831313330313230303030'' = ''D:20181130120000''"
proof -
  obtain n s' where w: "WriteTo (\<lambda>x. x) (take 16) noon emptyDoc quiet
                          = (n, Success, prepared emptyDoc, s')"
    using WriteTo_emptyDoc by blast
  from trailer_id_is_digest [OF w] obtain body table cd sz root nfo h where
    a: "received s' = received quiet @ body @ table
              @ ''trailer'' @ [NL]
              @ ''<</Size '' @ decimal sz @ ''/Root '' @ idString root @ ''/Info '' @ idString nfo @ [NL]
              @ ''/ID[<'' @ h @ ''><'' @ h @ ''>]>>'' @ [NL]
              @ ''startxref'' @ [NL] @ decimal (length body) @ [NL] @ ''%%EOF'' @ [NL]"
    and dt: "dateOf noon (info emptyDoc) = Returns cd"
    and h: "h = hexBytes (take 16 (cd @ ''/'' @ infoGet (info emptyDoc) ''title'' [] @ ''/'' @ decimal (length body)))"
    and hb: "bytesOfHex h = take 16 (cd @ ''/'' @ infoGet (info emptyDoc) ''title'' [] @ ''/'' @ decimal (length body))"
    by blast
  from dt have cd: "cd = ''D:20181130120000+09'' @ [QUOTE] @ ''00'' @ [QUOTE]"
    by (simp add: dateOf_def infoGet_def emptyDoc_def noon_formatted)
  have tk: "take 16 (cd @ ''/'' @ infoGet (info emptyDoc) ''title'' [] @ ''/'' @ decimal (length body))
              = ''D:20181130120000''"
    unfolding cd by simp
  have hx: "h = ''443A3230313831313330313230303030''"
    unfolding h tk by (rule hex_of_date)
  from a have a': "received s' = body @ table
              @ ''trailer'' @ [NL]
              @ ''<</Size '' @ decimal sz @ ''/Root '' @ idString root @ ''/Info '' @ idString nfo @ [NL]
              @ ''/ID[<443A3230313831313330313230303030><443A3230313831313330313230303030>]>>'' @ [NL]
              @ ''startxref'' @ [NL] @ decimal (length body) @ [NL] @ ''%%EOF'' @ [NL]"
    unfolding hx by (simp add: quiet_def)
  from hb have hb': "bytesOfHex ''443A3230313831313330313230303030'' = ''D:20181130120000''"
    unfolding hx tk .
  from w a' hb' show ?thesis
    by (intro exI [of _ n] exI [of _ "prepared emptyDoc"] exI [of _ s'] exI [of _ body]
          exI [of _ table] exI [of _ sz] exI [of _ root] exI [of _ nfo] conjI)
qed

section \<open>Streams\<close>

text \<open>
  C3. When \<open>addStream\<close> succeeds, it has written the header of the object, the dictionary
  with \<open>/Length\<close>, the bytes of the stream, a newline unless these end in one, and
  \<open>endstream\<close>, \<open>endobj\<close>. The bytes of the stream are the compressed data and the
  dictionary holds \<open>/Filter/FlateDecode\<close> exactly when the compressed length is at most
  the raw length minus 32; otherwise they are the raw data and the dictionary holds no
  filter. In both cases \<open>/Length\<close> is the number of the bytes of the stream.
\<close>

theorem addStream_compression_gate:
  assumes "addStream zlib d i dat = (Success, d')"
  shows "\<exists>body filter.
           emitted (writer d') = emitted (writer d) @ objHeader i
              @ ''<</Length '' @ decimal (length body) @ filter @ ''>>'' @ [NL]
              @ ''stream'' @ [NL] @ body @ pdfNewLine body
              @ ''endstream'' @ [NL] @ ''endobj'' @ [NL]
         \<and> (if int (length (zlib dat)) \<le> int (length dat) - 32
             then body = zlib dat \<and> filter = ''/Filter/FlateDecode''
             else body = dat \<and> filter = [])"
proof -
  have ne: "streamChunks (streamData zlib dat) \<noteq> []"
    by (simp add: streamChunks_def)
  from assms have a: "startThenWrite d i [] (streamChunks (streamData zlib dat)) = (Success, d')"
    by (simp add: addStream_shape)
  from startThenWrite_facts(5) [OF a ne]
  have e: "emitted (writer d') = emitted (writer d) @ objHeader i
             @ concat (streamChunks (streamData zlib dat))"
    by simp
  show ?thesis
  proof (cases "int (length (zlib dat)) \<le> int (length dat) - 32")
    case True
    then have "streamData zlib dat = (zlib dat, ''/Filter/FlateDecode'')"
      by (simp add: streamData_def pdfUseDeflate_def)
    with e True show ?thesis
      by (intro exI [of _ "zlib dat"] exI [of _ "''/Filter/FlateDecode''"])
         (simp add: streamChunks_def)
  next
    case False
    then have "streamData zlib dat = (dat, [])"
      by (simp add: streamData_def pdfUseDeflate_def)
    with e False show ?thesis
      by (intro exI [of _ dat] exI [of _ "[]"]) (simp add: streamChunks_def)
  qed
qed

theorem addStream_compression_gate_witness:
  "\<exists>d' d''.
     addStream (\<lambda>x. ''xyz'') blank 1 (replicate 35 (CHR ''a'')) = (Success, d')
     \<and> emitted (writer d') = objHeader 1 @ ''<</Length '' @ decimal (length ''xyz'') @ ''/Filter/FlateDecode>>'' @ [NL]
          @ ''stream'' @ [NL] @ ''xyz'' @ [NL] @ ''endstream'' @ [NL] @ ''endobj'' @ [NL]
     \<and> addStream (\<lambda>x. ''xyz'') blank 2 (replicate 34 (CHR ''a'')) = (Success, d'')
     \<and> emitted (writer d'') = objHeader 2 @ ''<</Length '' @ decimal 34 @ ''>>'' @ [NL]
          @ ''stream'' @ [NL] @ replicate 34 (CHR ''a'') @ [NL] @ ''endstream'' @ [NL] @ ''endobj'' @ [NL]"
proof -
  have t: "tracked [] True (writer blank)"
    unfolding tracked_def callsFrom_def
    by (intro conjI exI [of _ 0]) (simp_all add: blank_def newWriter_def quiet_def)
  have f: "fresh blank 1" "fresh blank 2"
    by (simp_all add: fresh_def blank_def)
  have e: "emitted (writer blank) = []"
    by (simp add: emitted_def blank_def newWriter_def quiet_def)
  obtain d' where a: "addStream (\<lambda>x. ''xyz'') blank 1 (replicate 35 (CHR ''a'')) = (Success, d')"
    using addStream_succeeds [OF t f(1)] by blast
  obtain d'' where b: "addStream (\<lambda>x. ''xyz'') blank 2 (replicate 34 (CHR ''a'')) = (Success, d'')"
    using addStream_succeeds [OF t f(2)] by blast
  from addStream_compression_gate [OF a] e
  have a': "emitted (writer d') = objHeader 1 @ ''<</Length '' @ decimal (length ''xyz'') @ ''/Filter/FlateDecode>>'' @ [NL]
          @ ''stream'' @ [NL] @ ''xyz'' @ [NL] @ ''endstream'' @ [NL] @ ''endobj'' @ [NL]"
    by (auto simp: pdfNewLine_def)
  from addStream_compression_gate [OF b] e
  have b': "emitted (writer d'') = objHeader 2 @ ''<</Length '' @ decimal 34 @ ''>>'' @ [NL]
          @ ''stream'' @ [NL] @ replicate 34 (CHR ''a'') @ [NL] @ ''endstream'' @ [NL] @ ''endobj'' @ [NL]"
    by (auto simp: pdfNewLine_def)
  from a a' b b' show ?thesis
    by (intro exI [of _ d'] exI [of _ d''] conjI)
qed

section \<open>The default page\<close>

text \<open>
  C8. When \<open>WriteTo\<close> succeeds on a document with no page, the document has got one page,
  with the default muffler, red, at the standard scale, and the output holds six objects:
  the resources (2), the content stream (3) of that page, whose code paints the muffler
  with \<open>1 0 0 RG 1 0 0 rg\<close>, the one page object (4), the page tree (1) with \<open>/Count 1\<close> and
  the kid \<open>4 0 R\<close>, the catalog (5) and the document information (6). When no page size
  was set, the page size is the default one, 210 mm by 294 mm, which is 595.276 by
  833.386 points; otherwise it is the size that was set.
\<close>

theorem zero_pages_one_default_page:
  assumes "WriteTo zlib md5 now d s = (n, Success, d', s')" and "dpages d = []"
  shows "dpages d' = [\<lparr>muffler = NRGBA 255 0 0 255, scale = stdScale\<rparr>]
       \<and> (\<exists>art nfo offs trl.
            received s' = received s
              @ concat (pdfHeader (infoGet (info d) ''version'' dfltPdfVersion))
              @ objHeader 2 @ ''<</ProcSet[/PDF]>>'' @ [NL] @ ''endobj'' @ [NL]
              @ objHeader 3
              @ concat (streamChunks (streamData zlib
                  (''q '' @ transformCode (width d') (height d') stdScale @ [NL]
                   @ art @ ''1 0 0 RG 1 0 0 rg'' @ [NL] @ eoMufflerCode @ [NL] @ ''Q'' @ [NL])))
              @ objHeader 4 @ ''<</Type/Page/Contents 3 0 R/Resources 2 0 R/Parent 1 0 R'' @ [NL]
              @ mediaBox d' @ ''>>'' @ [NL] @ ''endobj'' @ [NL]
              @ objHeader 1 @ ''<</Type/Pages/Count 1/Kids'' @ [NL] @ ''[4 0 R]>>'' @ [NL]
              @ ''endobj'' @ [NL]
              @ objHeader 5 @ ''<</Type/Catalog/Pages 1 0 R>>'' @ [NL] @ ''endobj'' @ [NL]
              @ objHeader 6 @ nfo @ xrefTable offs @ trl
            \<and> length offs = 7)
       \<and> (if width d = 0 \<and> height d = 0
           then width d' = dfltWidth \<and> height d' = dfltHeight
                \<and> mediaBox d' = ''/MediaBox[0 0 595.276 833.386]''
           else width d' = width d \<and> height d' = height d)"
proof -
  from WriteTo_success [OF assms(1)] obtain pd cd where
    dp: "d' = prepared d"
    and pi: "pagesId pd = 1"
    and len: "length (xref pd) = 3 + 2 * length (dpages d')"
    and pg: "pages pd = pageIds 3 (dpages d')"
    and rc: "received s' = received s @ bodyBytes zlib d' @ pagesObj pd
                @ catalogObj pd @ infoObj cd pd @ xrefTable (finalXref pd) @ trailerOf md5 cd pd"
    by blast
  let ?p = "\<lparr>muffler = dfltMuffler, scale = stdScale\<rparr>"
  have pgs: "dpages d' = [?p]"
    using dp assms(2) by (simp add: prepared_facts(5) std_scale(2))
  have a: "dpages d' = [\<lparr>muffler = NRGBA 255 0 0 255, scale = stdScale\<rparr>]"
    using pgs by (simp add: dfltMuffler_def)
  have i: "info d' = info d" using dp by (simp add: prepared_facts)
  obtain art where art: "essentialCode dfltMuffler
      = art @ ''1 0 0 RG 1 0 0 rg'' @ [NL] @ eoMufflerCode @ [NL]"
    using muffler_in_art by blast
  have ct: "pageContent d' ?p = ''q '' @ transformCode (width d') (height d') stdScale @ [NL]
                   @ art @ ''1 0 0 RG 1 0 0 rg'' @ [NL] @ eoMufflerCode @ [NL] @ ''Q'' @ [NL]"
    by (simp add: pageContent_def println_def art)
  have bb: "bodyBytes zlib d' =
      concat (pdfHeader (infoGet (info d) ''version'' dfltPdfVersion))
      @ objHeader 2 @ ''<</ProcSet[/PDF]>>'' @ [NL] @ ''endobj'' @ [NL]
      @ objHeader 3 @ concat (streamChunks (streamData zlib (pageContent d' ?p)))
      @ objHeader 4 @ ''<</Type/Page/Contents 3 0 R/Resources 2 0 R/Parent 1 0 R'' @ [NL]
      @ mediaBox d' @ ''>>'' @ [NL] @ ''endobj'' @ [NL]"
    by (simp only: bodyBytes_def pgs i resources_bytes one_page_bytes page_bytes append_assoc)
  have po: "pagesObj pd = objHeader 1 @ ''<</Type/Pages/Count 1/Kids'' @ [NL] @ ''[4 0 R]>>'' @ [NL]
              @ ''endobj'' @ [NL]"
  proof -
    have "pages pd = [4]" using pg pgs by simp
    then show ?thesis
      using pi by (simp add: pagesObj_def pagesChunks_def one_kid decimal_small)
  qed
  have l5: "length (xref pd) = 5" using len pgs by simp
  have co: "catalogObj pd = objHeader 5 @ ''<</Type/Catalog/Pages 1 0 R>>'' @ [NL] @ ''endobj'' @ [NL]"
    using pi l5 catalog_bytes by (simp add: catalogObj_def)
  have io: "infoObj cd pd = objHeader 6 @ concat (infoChunks (pd\<lparr>creationDate := cd\<rparr>))"
    using l5 by (simp add: infoObj_def)
  have l7: "length (finalXref pd) = 7" using l5 by (simp add: finalXref_length)
  have b: "received s' = received s
              @ concat (pdfHeader (infoGet (info d) ''version'' dfltPdfVersion))
              @ objHeader 2 @ ''<</ProcSet[/PDF]>>'' @ [NL] @ ''endobj'' @ [NL]
              @ objHeader 3
              @ concat (streamChunks (streamData zlib
                  (''q '' @ transformCode (width d') (height d') stdScale @ [NL]
                   @ art @ ''1 0 0 RG 1 0 0 rg'' @ [NL] @ eoMufflerCode @ [NL] @ ''Q'' @ [NL])))
              @ objHeader 4 @ ''<</Type/Page/Contents 3 0 R/Resources 2 0 R/Parent 1 0 R'' @ [NL]
              @ mediaBox d' @ ''>>'' @ [NL] @ ''endobj'' @ [NL]
              @ objHeader 1 @ ''<</Type/Pages/Count 1/Kids'' @ [NL] @ ''[4 0 R]>>'' @ [NL]
              @ ''endobj'' @ [NL]
              @ objHeader 5 @ ''<</Type/Catalog/Pages 1 0 R>>'' @ [NL] @ ''endobj'' @ [NL]
              @ objHeader 6 @ concat (infoChunks (pd\<lparr>creationDate := cd\<rparr>))
              @ xrefTable (finalXref pd) @ trailerOf md5 cd pd"
    by (simp only: rc bb po co io ct append_assoc)
  have c: "if width d = 0 \<and> height d = 0
           then width d' = dfltWidth \<and> height d' = dfltHeight
                \<and> mediaBox d' = ''/MediaBox[0 0 595.276 833.386]''
           else width d' = width d \<and> height d' = height d"
  proof (cases "width d = 0 \<and> height d = 0")
    case True
    from prepared_facts(6) [OF True] dp
    have w: "width d' = dfltWidth" "height d' = dfltHeight" by simp_all
    then have "mediaBox d' = ''/MediaBox[0 0 595.276 833.386]''"
      by (simp add: mediaBox_def default_size_strings)
    with w True show ?thesis
      by simp
  next
    case False
    from prepared_facts(7) [OF False] dp have "width d' = width d \<and> height d' = height d"
      by simp
    then show ?thesis by (simp only: False if_False)
  qed
  from b l7 have b': "\<exists>art nfo offs trl.
            received s' = received s
              @ concat (pdfHeader (infoGet (info d) ''version'' dfltPdfVersion))
              @ objHeader 2 @ ''<</ProcSet[/PDF]>>'' @ [NL] @ ''endobj'' @ [NL]
              @ objHeader 3
              @ concat (streamChunks (streamData zlib
                  (''q '' @ transformCode (width d') (height d') stdScale @ [NL]
                   @ art @ ''1 0 0 RG 1 0 0 rg'' @ [NL] @ eoMufflerCode @ [NL] @ ''Q'' @ [NL])))
              @ objHeader 4 @ ''<</Type/Page/Contents 3 0 R/Resources 2 0 R/Parent 1 0 R'' @ [NL]
              @ mediaBox d' @ ''>>'' @ [NL] @ ''endobj'' @ [NL]
              @ objHeader 1 @ ''<</Type/Pages/Count 1/Kids'' @ [NL] @ ''[4 0 R]>>'' @ [NL]
              @ ''endobj'' @ [NL]
              @ objHeader 5 @ ''<</Type/Catalog/Pages 1 0 R>>'' @ [NL] @ ''endobj'' @ [NL]
              @ objHeader 6 @ nfo @ xrefTable offs @ trl
            \<and> length offs = 7"
    by (intro exI [of _ art] exI [of _ "concat (infoChunks (pd\<lparr>creationDate := cd\<rparr>))"]
          exI [of _ "finalXref pd"] exI [of _ "trailerOf md5 cd pd"] conjI)
  from a b' c show ?thesis by (intro conjI)
qed

theorem zero_pages_one_default_page_witness:
  "\<exists>n d' s'.
     WriteTo (\<lambda>x. x) (\<lambda>x. []) noon emptyDoc quiet = (n, Success, d', s')
     \<and> dpages d' = [\<lparr>muffler = NRGBA 255 0 0 255, scale = stdScale\<rparr>]
     \<and> mediaBox d' = ''/MediaBox[0 0 595.276 833.386]''"
proof -
  obtain n s' where w: "WriteTo (\<lambda>x. x) (\<lambda>x. []) noon emptyDoc quiet = (n, Success, prepared emptyDoc, s')"
    using WriteTo_emptyDoc by blast
  have e: "dpages emptyDoc = []" "width emptyDoc = 0 \<and> height emptyDoc = 0"
    by (simp_all add: emptyDoc_def)
  from zero_pages_one_default_page [OF w e(1)] e(2)
  have "dpages (prepared emptyDoc) = [\<lparr>muffler = NRGBA 255 0 0 255, scale = stdScale\<rparr>]"
    and "mediaBox (prepared emptyDoc) = ''/MediaBox[0 0 595.276 833.386]''"
    by simp_all
  with w show ?thesis
    by (intro exI [of _ n] exI [of _ "prepared emptyDoc"] exI [of _ s'] conjI)
qed

text \<open>
  The default height is that of 294 mm, 833.386 points, more than eight points less than
  the 842 points of a sheet of 297 mm; and a document with no page on which a page size
  was set is written with that size, not with the default one.
\<close>

theorem zero_pages_size_not_842:
  "\<exists>n d' s' m e' s''.
     WriteTo (\<lambda>x. x) (\<lambda>x. []) noon emptyDoc quiet = (n, Success, d', s')
     \<and> mediaBox d' = ''/MediaBox[0 0 595.276 833.386]'' \<and> height d' < 834
     \<and> NewWithSize 100 200 = (None, sized) \<and> dpages sized = []
     \<and> WriteTo (\<lambda>x. x) (\<lambda>x. []) noon sized quiet = (m, Success, e', s'')
     \<and> mediaBox e' = ''/MediaBox[0 0 100 200]''"
proof -
  obtain n s' where w: "WriteTo (\<lambda>x. x) (\<lambda>x. []) noon emptyDoc quiet = (n, Success, prepared emptyDoc, s')"
    using WriteTo_emptyDoc by blast
  have e: "width emptyDoc = 0 \<and> height emptyDoc = 0"
    by (simp add: emptyDoc_def)
  from prepared_facts(6) [OF e]
  have wh: "width (prepared emptyDoc) = dfltWidth" "height (prepared emptyDoc) = dfltHeight"
    by simp_all
  have a: "mediaBox (prepared emptyDoc) = ''/MediaBox[0 0 595.276 833.386]''"
    by (simp add: mediaBox_def wh default_size_strings)
  have a2: "height (prepared emptyDoc) < 834"
    unfolding wh default_size by simp
  have s: "NewWithSize 100 200 = (None, sized)" "dpages sized = []"
    by (simp_all add: NewWithSize_def SetPageSize_def sized_def emptyDoc_def)
  have "\<exists>m s''. WriteTo (\<lambda>x. x) (\<lambda>x. []) noon sized quiet = (m, Success, prepared sized, s'')"
    by (rule WriteTo_succeeds) (simp_all add: quiet_def sized_def emptyDoc_def noon_date)
  then obtain m s'' where v: "WriteTo (\<lambda>x. x) (\<lambda>x. []) noon sized quiet = (m, Success, prepared sized, s'')"
    by blast
  have ns: "\<not> (width sized = 0 \<and> height sized = 0)"
    by (simp add: sized_def)
  from prepared_facts(7) [OF ns]
  have b: "mediaBox (prepared sized) = ''/MediaBox[0 0 100 200]''"
    by (simp add: mediaBox_def sized_def realStr_100)
  from w a a2 s v b show ?thesis
    by (intro exI [of _ n] exI [of _ "prepared emptyDoc"] exI [of _ s'] exI [of _ m]
          exI [of _ "prepared sized"] exI [of _ s''] conjI)
qed

section \<open>Escaping of strings\<close>

text \<open>
  C5. \<open>pdfStr\<close> does not escape the backslash. For the string of the three bytes \<open>a\<close>,
  backslash, \<open>b\<close> it returns the literal of the five bytes \<open>(\<close>, \<open>a\<close>, backslash, \<open>b\<close>,
  \<open>)\<close>, in which backslash and \<open>b\<close> are the escape of the backspace: read as a literal
  string of PDF, where the backslash is the escape character, it is the two bytes \<open>a\<close>
  and 0x08 and not the string that was given.
\<close>

theorem pdfStr_backslash_not_escaped:
  "pdfStr [CHR ''a'', BSL, CHR ''b''] = [CHR ''('', CHR ''a'', BSL, CHR ''b'', CHR '')'']
   \<and> pdfLiteralDecode (pdfStr [CHR ''a'', BSL, CHR ''b'']) = Some [CHR ''a'', CHR 0x08]
   \<and> pdfLiteralDecode (pdfStr [CHR ''a'', BSL, CHR ''b'']) \<noteq> Some [CHR ''a'', BSL, CHR ''b'']"
  unfolding pdfStr_a_backslash_b by (simp add: pdfLiteralDecode_def)

section \<open>Errors of the sink\<close>




section \<open>The page tree\<close>

text \<open>
  C7. The chunk of the kids that \<open>finish\<close> writes for a list of pages that is not empty
  is a bracket, lines separated by newlines, and a bracket; each line is made of
  references, whole and separated by single spaces, and the references of all lines, in
  this order, are the pages in the order of the list. The line is broken after a
  reference exactly when the bytes of the line up to and with this reference, the opening
  bracket counted in the first line, are more than 70: every line but the last is longer
  than 70 bytes, and within a line no reference but its last ends beyond 70 bytes. No
  reference holds a newline. In the output of a successful \<open>WriteTo\<close> the object 1 is the
  page tree with this array for the page objects 4, 6, 8 and so on.
\<close>

theorem kids_broken_at_references:
  "(ps \<noteq> [] \<longrightarrow>
      (\<exists>lines. concat lines = ps
         \<and> pagesChunks ps =
               [''<</Type/Pages/Count '' @ decimal (length ps) @ ''/Kids'' @ [NL],
                ''['' @ joinNl (map refs lines) @ '']'', ''>>'' @ [NL] @ ''endobj'' @ [NL]]
         \<and> broken 1 lines \<and> list_all (\<lambda>l. NL \<notin> set (refs l)) lines))
   \<and> (WriteTo zlib md5 now d s = (n, Success, d', s') \<longrightarrow>
      (\<exists>lines before rest.
         concat lines = map (\<lambda>k. 4 + 2 * k) [0..<length (dpages d')]
         \<and> received s' = received s @ before @ objHeader 1
               @ ''<</Type/Pages/Count '' @ decimal (length (dpages d')) @ ''/Kids'' @ [NL]
               @ ''['' @ joinNl (map refs lines) @ '']'' @ ''>>'' @ [NL] @ ''endobj'' @ [NL] @ rest
         \<and> broken 1 lines))"
proof (intro conjI impI)
  assume ne: "ps \<noteq> []"
  from kidsArray_lines [OF ne] obtain lines where l: "concat lines = ps"
    "kidsArray ps = ''['' @ joinNl (map refs lines) @ '']''" "broken 1 lines"
    by blast
  have "list_all (\<lambda>l. NL \<notin> set (refs l)) lines"
    by (simp add: list_all_iff refs_no_newline)
  with l show "\<exists>lines. concat lines = ps
         \<and> pagesChunks ps =
               [''<</Type/Pages/Count '' @ decimal (length ps) @ ''/Kids'' @ [NL],
                ''['' @ joinNl (map refs lines) @ '']'', ''>>'' @ [NL] @ ''endobj'' @ [NL]]
         \<and> broken 1 lines \<and> list_all (\<lambda>l. NL \<notin> set (refs l)) lines"
    by (intro exI [of _ lines]) (simp add: pagesChunks_def)
next
  assume w: "WriteTo zlib md5 now d s = (n, Success, d', s')"
  from WriteTo_success [OF w] obtain pd cd where
    dp: "d' = prepared d" and pi: "pagesId pd = 1"
    and pg: "pages pd = pageIds 3 (dpages d')"
    and rc: "received s' = received s @ bodyBytes zlib d' @ pagesObj pd
                @ catalogObj pd @ infoObj cd pd @ xrefTable (finalXref pd) @ trailerOf md5 cd pd"
    by blast
  have ne: "dpages d' \<noteq> []" using dp by (simp add: prepared_facts)
  then have pne: "pages pd \<noteq> []" using pg by (cases "dpages d'") simp_all
  from kidsArray_lines [OF pne] obtain lines where l: "concat lines = pages pd"
    "kidsArray (pages pd) = ''['' @ joinNl (map refs lines) @ '']''" "broken 1 lines"
    by blast
  have len: "length (pages pd) = length (dpages d')"
    using pg by (simp add: pageIds_map)
  have c: "concat lines = map (\<lambda>k. 4 + 2 * k) [0..<length (dpages d')]"
    using l(1) pg by (simp add: pageIds_map)
  let ?rest = "catalogObj pd @ infoObj cd pd @ xrefTable (finalXref pd) @ trailerOf md5 cd pd"
  have r: "received s' = received s @ bodyBytes zlib d' @ objHeader 1
               @ ''<</Type/Pages/Count '' @ decimal (length (dpages d')) @ ''/Kids'' @ [NL]
               @ ''['' @ joinNl (map refs lines) @ '']'' @ ''>>'' @ [NL] @ ''endobj'' @ [NL] @ ?rest"
    unfolding rc pagesObj_def pi pagesChunks_def l(2) len by simp
  from c r l(3) show "\<exists>lines before rest.
         concat lines = map (\<lambda>k. 4 + 2 * k) [0..<length (dpages d')]
         \<and> received s' = received s @ before @ objHeader 1
               @ ''<</Type/Pages/Count '' @ decimal (length (dpages d')) @ ''/Kids'' @ [NL]
               @ ''['' @ joinNl (map refs lines) @ '']'' @ ''>>'' @ [NL] @ ''endobj'' @ [NL] @ rest
         \<and> broken 1 lines"
    by (intro exI [of _ lines] exI [of _ "bodyBytes zlib d'"] exI [of _ ?rest] conjI)
qed

theorem kids_broken_at_references_witness:
  "\<exists>lines n d' s' lines' before rest.
     concat lines = manyKids
     \<and> pagesChunks manyKids ! 1 = ''['' @ joinNl (map refs lines) @ '']''
     \<and> pagesChunks manyKids ! 1 = ''[4 0 R 6 0 R 8 0 R 10 0 R 12 0 R 14 0 R 16 0 R 18 0 R 20 0 R 22 0 R 24 0 R'' @ [NL] @ ''26 0 R 28 0 R 30 0 R 32 0 R 34 0 R 36 0 R 38 0 R 40 0 R]''
     \<and> broken 1 lines
     \<and> WriteTo (\<lambda>x. x) (\<lambda>x. []) noon emptyDoc quiet = (n, Success, d', s')
     \<and> concat lines' = [4]
     \<and> received s' = before @ objHeader 1
           @ ''<</Type/Pages/Count '' @ decimal 1 @ ''/Kids'' @ [NL]
           @ ''['' @ joinNl (map refs lines') @ '']'' @ ''>>'' @ [NL] @ ''endobj'' @ [NL] @ rest"
proof -
  note t = kids_broken_at_references [where ps = manyKids and zlib = "\<lambda>x. x" and ?md5.0 = "\<lambda>x. []"
      and now = noon and d = emptyDoc and s = quiet]
  have ne: "manyKids \<noteq> []" by (simp add: manyKids_def)
  from t ne obtain lines where l: "concat lines = manyKids"
    "pagesChunks manyKids =
               [''<</Type/Pages/Count '' @ decimal (length manyKids) @ ''/Kids'' @ [NL],
                ''['' @ joinNl (map refs lines) @ '']'', ''>>'' @ [NL] @ ''endobj'' @ [NL]]"
    "broken 1 lines"
    by blast
  from l(2) have a: "pagesChunks manyKids ! 1 = ''['' @ joinNl (map refs lines) @ '']''"
    by simp
  have b: "pagesChunks manyKids ! 1 = ''[4 0 R 6 0 R 8 0 R 10 0 R 12 0 R 14 0 R 16 0 R 18 0 R 20 0 R 22 0 R 24 0 R'' @ [NL] @ ''26 0 R 28 0 R 30 0 R 32 0 R 34 0 R 36 0 R 38 0 R 40 0 R]''"
    by (simp add: pagesChunks_def manyKids_array)
  obtain n s' where w: "WriteTo (\<lambda>x. x) (\<lambda>x. []) noon emptyDoc quiet = (n, Success, prepared emptyDoc, s')"
    using WriteTo_emptyDoc by blast
  have p: "length (dpages (prepared emptyDoc)) = 1"
    by (simp add: prepared_facts(5) emptyDoc_def)
  from t w obtain lines' before rest where m:
    "concat lines' = map (\<lambda>k. 4 + 2 * k) [0..<length (dpages (prepared emptyDoc))]"
    "received s' = received quiet @ before @ objHeader 1
               @ ''<</Type/Pages/Count '' @ decimal (length (dpages (prepared emptyDoc))) @ ''/Kids'' @ [NL]
               @ ''['' @ joinNl (map refs lines') @ '']'' @ ''>>'' @ [NL] @ ''endobj'' @ [NL] @ rest"
    by blast
  from m(1) have c: "concat lines' = [4]" unfolding p by simp
  from m(2) have r: "received s' = before @ objHeader 1
           @ ''<</Type/Pages/Count '' @ decimal 1 @ ''/Kids'' @ [NL]
           @ ''['' @ joinNl (map refs lines') @ '']'' @ ''>>'' @ [NL] @ ''endobj'' @ [NL] @ rest"
    unfolding p by (simp add: quiet_def)
  from l(1) a b l(3) w c r show ?thesis
    by (intro exI [of _ lines] exI [of _ n] exI [of _ "prepared emptyDoc"] exI [of _ s']
          exI [of _ lines'] exI [of _ before] exI [of _ rest] conjI)
qed

end
